theory Spec2Isabelle
  imports Main "HOL-Library.AList"
begin

section \<open>Feedback oracle\<close>

text \<open>
  A code is a Python tuple of colour names; a feedback is the pair \<open>(black, white)\<close> of
  Python integers. A Python \<open>str\<close> is a list of characters; the characters of this model
  are the code points below 256.
\<close>

type_synonym code = "string list"
type_synonym feedback = "int \<times> int"

text \<open>\<open>tuple.count(c)\<close>: the number of occurrences of \<open>c\<close>, as a Python integer.\<close>

definition count :: "'a list \<Rightarrow> 'a \<Rightarrow> int" where
  "count xs c = int (count_list xs c)"

text \<open>
  \<open>get_feedback\<close> of \<open>constraint.py\<close> and \<open>maxmin.py\<close>. The generator
  \<open>sum(1 for s, g in zip(secret, guess) if s == g)\<close> adds one for every pair of \<open>zip\<close>
  that passes the test. \<open>set(guess)\<close> holds each symbol of the guess once; the sum over it
  does not depend on the order in which the set is visited, so the distinct symbols are
  taken in the order of \<open>remdups\<close>. The \<open>lru_cache\<close> decorator only memoises a pure
  function.
\<close>

definition get_feedback :: "code \<Rightarrow> code \<Rightarrow> feedback" where
  "get_feedback secret guess =
     (let black = sum_list (map (\<lambda>(s, g). 1) (filter (\<lambda>(s, g). s = g) (zip secret guess)));
          white = sum_list (map (\<lambda>c. min (count secret c) (count guess c)) (remdups guess)) - black
      in (black, white))"

text \<open>
  \<open>logicalinterface.py\<close> and \<open>depthsirch.py\<close> write the first line as
  \<open>sum(s == g for s, g in zip(secret, guess))\<close>, a sum of booleans, and the second line
  as above; \<open>get_feedback_bools\<close> below shows that this is the same function, and the
  model of each file calls \<open>get_feedback\<close>.
\<close>

definition black_of_bools :: "code \<Rightarrow> code \<Rightarrow> int" where
  "black_of_bools secret guess = sum_list (map (\<lambda>(s, g). if s = g then 1 else 0) (zip secret guess))"

section \<open>Errors, printed lines and the random generator\<close>

text \<open>The exceptions the solvers can raise; none of them is caught by the solvers.\<close>

datatype py_error = IndexError | ValueError | TypeError

text \<open>
  The lines a solver prints: the turn header with the guess, the two feedback lines, the
  success line with the turn number, the line that says no candidate remains (its wording
  differs between the solvers) and the minimax solver's line that filtering made no progress.
\<close>

datatype msg =
    TurnMsg nat code
  | BlackMsg int
  | WhiteMsg int
  | FoundMsg nat
  | NoCandidatesMsg
  | NoProgressMsg

definition announce :: "nat \<Rightarrow> code \<Rightarrow> feedback \<Rightarrow> msg list" where
  "announce t guess fb = [TurnMsg t guess, BlackMsg (fst fb), WhiteMsg (snd fb)]"

text \<open>How one pass through a loop body ends: the loop goes on, the function leaves through
  the branch \<open>fb == (pegs, 0)\<close>, or it leaves through a branch \<open>not remaining\<close>.\<close>

datatype flow = Next | Found | Exhausted

text \<open>
  \<open>best_score\<close> starts as \<open>float('inf')\<close> and holds an integer afterwards.
\<close>

datatype best = PosInf | Num int

fun less_best :: "int \<Rightarrow> best \<Rightarrow> bool" where
  "less_best x PosInf = True"
| "less_best x (Num b) = (x < b)"

text \<open>
  The module \<open>random\<close> keeps one generator for the whole process. Its state is the
  sequence of numbers it will deliver; \<open>random.choice(seq)\<close> raises \<open>IndexError\<close> on an
  empty sequence and otherwise takes the next number to index \<open>seq\<close>.
\<close>

type_synonym rng = "nat \<Rightarrow> nat"

definition random_choice :: "rng \<Rightarrow> 'a list \<Rightarrow> py_error + ('a \<times> rng)" where
  "random_choice g seq =
     (if seq = [] then Inl IndexError
      else Inr (seq ! (g 0 mod length seq), \<lambda>k. g (Suc k)))"

section \<open>The code space\<close>

text \<open>
  \<open>itertools.product(pool, repeat=n)\<close> in the order of its reference implementation,
  \<open>result = [x + [y] for x in result for y in pool]\<close> once per position; a negative
  \<open>repeat\<close> raises \<open>ValueError\<close>.
\<close>

fun product_repeat :: "'a list \<Rightarrow> nat \<Rightarrow> 'a list list" where
  "product_repeat pool 0 = [[]]"
| "product_repeat pool (Suc n) = concat (map (\<lambda>x. map (\<lambda>y. x @ [y]) pool) (product_repeat pool n))"

definition itertools_product :: "'a list \<Rightarrow> int \<Rightarrow> py_error + 'a list list" where
  "itertools_product pool repeat =
     (if repeat < 0 then Inl ValueError else Inr (product_repeat pool (nat repeat)))"

section \<open>The scored-inference solver (\<open>constraint.py\<close>)\<close>

record run_state =
  remaining :: "code list"
  guess_history :: "code list"
  turn :: nat
  printed :: "msg list"

record solver_state = run_state +
  premises_list :: "(code \<times> feedback) list"
  rng :: rng

definition initial_state :: "code list \<Rightarrow> rng \<Rightarrow> solver_state" where
  "initial_state all_codes g =
     \<lparr>remaining = all_codes, guess_history = [], turn = 0, printed = [], premises_list = [], rng = g\<rparr>"

text \<open>One pass through the body of the loop of phase 1.\<close>

definition explore_turn :: "code \<Rightarrow> int \<Rightarrow> solver_state \<Rightarrow> py_error + (flow \<times> solver_state)" where
  "explore_turn secret pegs st =
     (case random_choice (rng st) (remaining st) of
        Inl e \<Rightarrow> Inl e
      | Inr (guess, g') \<Rightarrow>
          let t = turn st + 1;
              fb = get_feedback secret guess;
              st1 = st\<lparr>turn := t, rng := g',
                       guess_history := guess_history st @ [guess],
                       printed := printed st @ announce t guess fb,
                       premises_list := premises_list st @ [(guess, fb)],
                       remaining := filter (\<lambda>code. get_feedback code guess = fb) (remaining st)\<rparr>
          in if fb = (pegs, 0)
             then Inr (Found, st1\<lparr>printed := printed st1 @ [FoundMsg t]\<rparr>)
             else Inr (Next, st1))"

text \<open>\<open>for _ in range(num_initial_guesses)\<close>, the number of passes given as a natural.\<close>

fun random_exploration :: "code \<Rightarrow> int \<Rightarrow> nat \<Rightarrow> solver_state \<Rightarrow> py_error + (flow \<times> solver_state)" where
  "random_exploration secret pegs 0 st = Inr (Next, st)"
| "random_exploration secret pegs (Suc n) st =
     (case explore_turn secret pegs st of
        Inl e \<Rightarrow> Inl e
      | Inr (Next, st') \<Rightarrow> random_exploration secret pegs n st'
      | Inr (fl, st') \<Rightarrow> Inr (fl, st'))"

text \<open>The inner loop over the premises, which accumulates \<open>score\<close>.\<close>

definition candidate_score :: "(code \<times> feedback) list \<Rightarrow> code \<Rightarrow> int" where
  "candidate_score prems candidate =
     foldl (\<lambda>score (prev_guess, prev_fb).
              let candidate_fb = get_feedback candidate prev_guess
              in score + (\<bar>fst candidate_fb - fst prev_fb\<bar> + \<bar>snd candidate_fb - snd prev_fb\<bar>))
           0 prems"

text \<open>The loop over the candidates: the pair \<open>(best_guess, best_score)\<close> after it;
  \<open>best_guess\<close> is \<open>None\<close> until a candidate has been taken.\<close>

definition best_candidate :: "(code \<times> feedback) list \<Rightarrow> code list \<Rightarrow> code option \<times> best" where
  "best_candidate prems cands =
     foldl (\<lambda>(best_guess, best_score) candidate.
              let score = candidate_score prems candidate
              in if less_best score best_score then (Some candidate, Num score)
                 else (best_guess, best_score))
           (None, PosInf) cands"

text \<open>One pass through the body of \<open>while remaining:\<close> of phase 2.\<close>

definition inference_turn :: "code \<Rightarrow> int \<Rightarrow> solver_state \<Rightarrow> py_error + (flow \<times> solver_state)" where
  "inference_turn secret pegs st =
     (case (case fst (best_candidate (premises_list st) (remaining st)) of
              None \<Rightarrow> random_choice (rng st) (remaining st)
            | Some best_guess \<Rightarrow> Inr (best_guess, rng st)) of
        Inl e \<Rightarrow> Inl e
      | Inr (guess, g') \<Rightarrow>
          let t = turn st + 1;
              fb = get_feedback secret guess;
              prems = premises_list st @ [(guess, fb)];
              st1 = st\<lparr>turn := t, rng := g',
                       guess_history := guess_history st @ [guess],
                       printed := printed st @ announce t guess fb,
                       premises_list := prems,
                       remaining := filter (\<lambda>code. list_all (\<lambda>(g, f). get_feedback code g = f) prems)
                                           (remaining st)\<rparr>
          in if fb = (pegs, 0)
             then Inr (Found, st1\<lparr>printed := printed st1 @ [FoundMsg t]\<rparr>)
             else if remaining st1 = []
             then Inr (Exhausted, st1\<lparr>printed := printed st1 @ [NoCandidatesMsg]\<rparr>)
             else Inr (Next, st1))"

text \<open>\<open>while remaining:\<close>. The loop need not end on every state, so the result is an
  option: \<open>None\<close> is a run that never returns.\<close>

partial_function (option) inference_loop :: "code \<Rightarrow> int \<Rightarrow> solver_state \<Rightarrow> (py_error + solver_state) option" where
  "inference_loop secret pegs st =
     (if remaining st = [] then Some (Inr st)
      else (case inference_turn secret pegs st of
              Inl e \<Rightarrow> Some (Inl e)
            | Inr (Next, st') \<Rightarrow> inference_loop secret pegs st'
            | Inr (fl, st') \<Rightarrow> Some (Inr st')))"

declare inference_loop.simps [code]

text \<open>The whole run, with the state at the moment the function returns.\<close>

definition logical_inference_run :: "code \<Rightarrow> int \<Rightarrow> string list \<Rightarrow> int \<Rightarrow> rng \<Rightarrow> (py_error + solver_state) option" where
  "logical_inference_run secret pegs colors_list num_initial_guesses g =
     (case itertools_product colors_list pegs of
        Inl e \<Rightarrow> Some (Inl e)
      | Inr all_codes \<Rightarrow>
          (case random_exploration secret pegs (nat num_initial_guesses) (initial_state all_codes g) of
             Inl e \<Rightarrow> Some (Inl e)
           | Inr (Next, st) \<Rightarrow> inference_loop secret pegs st
           | Inr (fl, st) \<Rightarrow> Some (Inr st)))"

text \<open>What the caller receives: \<open>return guess_history\<close>.\<close>

definition logical_inference_solver :: "code \<Rightarrow> int \<Rightarrow> string list \<Rightarrow> int \<Rightarrow> rng \<Rightarrow> (py_error + code list) option" where
  "logical_inference_solver secret pegs colors_list num_initial_guesses g =
     map_option (map_sum id guess_history)
       (logical_inference_run secret pegs colors_list num_initial_guesses g)"

section \<open>The minimax solver (\<open>maxmin.py\<close>)\<close>

text \<open>
  \<open>partition_sizes\<close> is a dictionary from feedback to a count. A Python dictionary keeps
  its keys in the order of their first insertion, as an association list updated in place
  does. \<open>partition_sizes.get(fb, 0)\<close> reads a missing key as 0.
\<close>

definition dict_get :: "('k \<times> 'v) list \<Rightarrow> 'k \<Rightarrow> 'v \<Rightarrow> 'v" where
  "dict_get d k dflt = (case map_of d k of None \<Rightarrow> dflt | Some v \<Rightarrow> v)"

definition partition_sizes :: "code list \<Rightarrow> code \<Rightarrow> (feedback \<times> int) list" where
  "partition_sizes rem guess =
     foldl (\<lambda>sizes possible_secret.
              let fb = get_feedback possible_secret guess
              in AList.update fb (dict_get sizes fb 0 + 1) sizes)
           [] rem"

text \<open>\<open>max\<close> of an empty sequence raises \<open>ValueError\<close>.\<close>

fun py_max :: "int list \<Rightarrow> py_error + int" where
  "py_max [] = Inl ValueError"
| "py_max (x # xs) = Inr (foldl max x xs)"

definition worst_partition :: "code list \<Rightarrow> code \<Rightarrow> py_error + int" where
  "worst_partition rem guess = py_max (map snd (partition_sizes rem guess))"

text \<open>The first loop of \<open>minimax_guess\<close>, from the pair \<open>(best_score, best_guess)\<close>.\<close>

fun first_pass :: "code list \<Rightarrow> code list \<Rightarrow> best \<times> code option \<Rightarrow> py_error + (best \<times> code option)" where
  "first_pass rem [] acc = Inr acc"
| "first_pass rem (guess # rest) (best_score, best_guess) =
     (case worst_partition rem guess of
        Inl e \<Rightarrow> Inl e
      | Inr w \<Rightarrow>
          if less_best w best_score then first_pass rem rest (Num w, Some guess)
          else first_pass rem rest (best_score, best_guess))"

text \<open>The second loop, which stops at the first guess with the best score that is a
  member of \<open>remaining\<close>.\<close>

fun second_pass :: "code list \<Rightarrow> code list \<Rightarrow> best \<Rightarrow> code option \<Rightarrow> py_error + code option" where
  "second_pass rem [] best_score best_guess = Inr best_guess"
| "second_pass rem (guess # rest) best_score best_guess =
     (case worst_partition rem guess of
        Inl e \<Rightarrow> Inl e
      | Inr w \<Rightarrow>
          if Num w = best_score \<and> guess \<in> set rem then Inr (Some guess)
          else second_pass rem rest best_score best_guess)"

text \<open>\<open>minimax_guess\<close>; the result \<open>None\<close> is Python's \<open>None\<close>, returned when \<open>all_codes\<close>
  is empty.\<close>

definition minimax_guess :: "code list \<Rightarrow> code list \<Rightarrow> py_error + code option" where
  "minimax_guess rem all_codes =
     (case first_pass rem all_codes (PosInf, None) of
        Inl e \<Rightarrow> Inl e
      | Inr (best_score, best_guess) \<Rightarrow> second_pass rem all_codes best_score best_guess)"

definition initial_guess :: code where
  "initial_guess = [''red'', ''red'', ''yellow'', ''green'', ''blue'']"

text \<open>
  Line 76, \<open>guess = initial_guess if initial_guess in all_codes else all_codes[0]\<close>: the
  value is overwritten in the first pass through the loop before it is read, but
  \<open>all_codes[0]\<close> raises \<open>IndexError\<close> when the list is empty.
\<close>

definition opening_guess :: "code list \<Rightarrow> py_error + code" where
  "opening_guess all_codes =
     (if initial_guess \<in> set all_codes then Inr initial_guess
      else (case all_codes of [] \<Rightarrow> Inl IndexError | c # _ \<Rightarrow> Inr c))"

definition minimax_initial_state :: "code list \<Rightarrow> run_state" where
  "minimax_initial_state all_codes =
     \<lparr>remaining = all_codes, guess_history = [], turn = 0, printed = []\<rparr>"

text \<open>
  One pass through the body of \<open>while remaining:\<close>. When \<open>minimax_guess\<close> returns \<open>None\<close>,
  \<open>zip(secret, None)\<close> in \<open>get_feedback\<close> raises \<open>TypeError\<close>. \<open>remaining.remove(guess)\<close>
  deletes the first occurrence; \<open>remaining\<close> is a copy of \<open>all_codes\<close>, which stays as it
  was.
\<close>

definition minimax_turn :: "code \<Rightarrow> int \<Rightarrow> code list \<Rightarrow> run_state \<Rightarrow> py_error + (flow \<times> run_state)" where
  "minimax_turn secret pegs all_codes st =
     (let t = turn st + 1 in
      case (if t = 1 then Inr (Some initial_guess) else minimax_guess (remaining st) all_codes) of
        Inl e \<Rightarrow> Inl e
      | Inr None \<Rightarrow> Inl TypeError
      | Inr (Some guess) \<Rightarrow>
          let feedback = get_feedback secret guess;
              st1 = st\<lparr>turn := t,
                       guess_history := guess_history st @ [guess],
                       printed := printed st @ announce t guess feedback\<rparr>
          in if feedback = (pegs, 0)
             then Inr (Found, st1\<lparr>printed := printed st1 @ [FoundMsg t]\<rparr>)
             else
               let new_remaining = filter (\<lambda>code. get_feedback code guess = feedback) (remaining st);
                   st2 = (if length new_remaining = length (remaining st)
                          then st1\<lparr>remaining := (if guess \<in> set (remaining st)
                                                   then remove1 guess (remaining st)
                                                   else remaining st),
                                    printed := printed st1 @ [NoProgressMsg]\<rparr>
                          else st1\<lparr>remaining := new_remaining\<rparr>)
               in if remaining st2 = []
                  then Inr (Exhausted, st2\<lparr>printed := printed st2 @ [NoCandidatesMsg]\<rparr>)
                  else Inr (Next, st2))"

partial_function (option) minimax_loop :: "code \<Rightarrow> int \<Rightarrow> code list \<Rightarrow> run_state \<Rightarrow> (py_error + run_state) option" where
  "minimax_loop secret pegs all_codes st =
     (if remaining st = [] then Some (Inr st)
      else (case minimax_turn secret pegs all_codes st of
              Inl e \<Rightarrow> Some (Inl e)
            | Inr (Next, st') \<Rightarrow> minimax_loop secret pegs all_codes st'
            | Inr (fl, st') \<Rightarrow> Some (Inr st')))"

declare minimax_loop.simps [code]

definition mastermind_minimax_run :: "code \<Rightarrow> int \<Rightarrow> string list \<Rightarrow> (py_error + run_state) option" where
  "mastermind_minimax_run secret pegs colors_list =
     (case itertools_product colors_list pegs of
        Inl e \<Rightarrow> Some (Inl e)
      | Inr all_codes \<Rightarrow>
          (case opening_guess all_codes of
             Inl e \<Rightarrow> Some (Inl e)
           | Inr _ \<Rightarrow> minimax_loop secret pegs all_codes (minimax_initial_state all_codes)))"

definition mastermind_minimax_solver :: "code \<Rightarrow> int \<Rightarrow> string list \<Rightarrow> (py_error + code list) option" where
  "mastermind_minimax_solver secret pegs colors_list =
     map_option (map_sum id guess_history) (mastermind_minimax_run secret pegs colors_list)"

section \<open>The clause layer and the CNF solver (\<open>logicalinterface.py\<close>)\<close>

definition COLORS :: "string list" where
  "COLORS = [''red'', ''yellow'', ''green'', ''blue'', ''pink'', ''brown'']"

definition PEGS :: int where
  "PEGS = 5"

subsection \<open>String operations\<close>

text \<open>
  \<open>str.strip()\<close> removes the characters for which \<open>str.isspace\<close> holds from both ends;
  below 256 these are the code points 9 to 13, 28 to 32, 133 and 160.
\<close>

definition is_space :: "char \<Rightarrow> bool" where
  "is_space c = (let n = (of_char c :: nat) in (9 \<le> n \<and> n \<le> 13) \<or> (28 \<le> n \<and> n \<le> 32) \<or> n = 133 \<or> n = 160)"

definition strip_where :: "(char \<Rightarrow> bool) \<Rightarrow> string \<Rightarrow> string" where
  "strip_where p s = rev (dropWhile p (rev (dropWhile p s)))"

definition py_strip :: "string \<Rightarrow> string" where
  "py_strip s = strip_where is_space s"

text \<open>\<open>s.strip(chars)\<close> removes the characters of \<open>chars\<close> from both ends.\<close>

definition py_strip_chars :: "string \<Rightarrow> string \<Rightarrow> string" where
  "py_strip_chars chars s = strip_where (\<lambda>c. c \<in> set chars) s"

text \<open>\<open>s.split(sep)\<close> for a separator of one character: the pieces between its occurrences,
  empty pieces kept.\<close>

fun py_split :: "char \<Rightarrow> string \<Rightarrow> string list" where
  "py_split sep [] = [[]]"
| "py_split sep (c # cs) =
     (if c = sep then [] # py_split sep cs
      else (case py_split sep cs of
              [] \<Rightarrow> [[c]]
            | piece # pieces \<Rightarrow> (c # piece) # pieces))"

text \<open>
  \<open>int(s)\<close> on a string: white space around the number is ignored, one sign is allowed,
  and the digits may be separated by single underscores. Below 256 the only decimal digits
  are \<open>0\<close> to \<open>9\<close>. The result is \<open>None\<close> where Python raises \<open>ValueError\<close>. (The
  interpreter's limit on the number of digits of a converted string is not modelled.)
\<close>

definition is_digit :: "char \<Rightarrow> bool" where
  "is_digit c = (let n = (of_char c :: nat) in 48 \<le> n \<and> n \<le> 57)"

definition digit_value :: "char \<Rightarrow> int" where
  "digit_value c = int (of_char c) - 48"

fun more_digits :: "int \<Rightarrow> string \<Rightarrow> int option" where
  "more_digits acc [] = Some acc"
| "more_digits acc [c] = (if is_digit c then Some (10 * acc + digit_value c) else None)"
| "more_digits acc (c # d # ds) =
     (if is_digit c then more_digits (10 * acc + digit_value c) (d # ds)
      else if c = CHR ''_'' \<and> is_digit d then more_digits (10 * acc + digit_value d) ds
      else None)"

definition unsigned_int :: "string \<Rightarrow> int option" where
  "unsigned_int s =
     (case s of
        [] \<Rightarrow> None
      | c # cs \<Rightarrow> if is_digit c then more_digits (digit_value c) cs else None)"

definition py_int :: "string \<Rightarrow> int option" where
  "py_int s =
     (case py_strip s of
        [] \<Rightarrow> None
      | c # cs \<Rightarrow>
          if c = CHR ''+'' then unsigned_int cs
          else if c = CHR ''-'' then map_option uminus (unsigned_int cs)
          else unsigned_int (c # cs))"

text \<open>\<open>str(n)\<close> for a natural number, as the f-string writes \<open>i+1\<close>; \<open>digit_char\<close> is
  applied to numbers below ten only.\<close>

definition digit_char :: "nat \<Rightarrow> char" where
  "digit_char d = ''0123456789'' ! d"

fun str_nat :: "nat \<Rightarrow> string" where
  "str_nat n = (if n < 10 then [digit_char n] else str_nat (n div 10) @ [digit_char (n mod 10)])"

text \<open>\<open>xs[i]\<close> for a Python integer: a negative index counts from the end, and an index
  outside the sequence raises \<open>IndexError\<close>.\<close>

definition py_index :: "'a list \<Rightarrow> int \<Rightarrow> py_error + 'a" where
  "py_index xs i =
     (if 0 \<le> i \<and> i < int (length xs) then Inr (xs ! nat i)
      else if i < 0 \<and> - int (length xs) \<le> i then Inr (xs ! nat (int (length xs) + i))
      else Inl IndexError)"

subsection \<open>Clauses\<close>

text \<open>
  A literal is a string, \<open>Color(i, 'c')\<close> or \<open>~Color(i, 'c')\<close>. A clause is a Python set
  of literals; the list gives its members in the order in which the \<open>for\<close> loop visits
  them.
\<close>

type_synonym literal = string
type_synonym clause = "literal list"

text \<open>
  The body of the two \<open>try\<close> blocks, applied to the literal without its \<open>~\<close>:
  \<open>inside = pos_literal[len("Color("):-1]\<close> drops six characters at the front and one at
  the end whatever they are; the unpacking \<open>i_str, col_str = inside.split(",")\<close> needs
  exactly two pieces. \<open>None\<close> stands for any exception, which the bare \<open>except\<close> catches.
\<close>

definition parse_literal :: "string \<Rightarrow> (int \<times> string) option" where
  "parse_literal pos_literal =
     (let inside = butlast (drop 6 pos_literal)
      in case py_split CHR '','' inside of
           [i_str, col_str] \<Rightarrow>
             (case py_int (py_strip i_str) of
                None \<Rightarrow> None
              | Some i \<Rightarrow> Some (i, py_strip_chars [CHR 0x27] (py_strip col_str)))
         | _ \<Rightarrow> None)"

text \<open>
  The loop over the literals of one clause, giving \<open>clause_sat\<close>: a literal that does not
  parse is passed over by \<open>continue\<close>; \<open>code[i-1]\<close> stands outside the \<open>try\<close>, so its
  \<open>IndexError\<close> leaves the function.
\<close>

fun clause_sat :: "code \<Rightarrow> clause \<Rightarrow> py_error + bool" where
  "clause_sat code [] = Inr False"
| "clause_sat code (literal # rest) =
     (if take 1 literal = ''~'' then
        (case parse_literal (drop 1 literal) of
           None \<Rightarrow> clause_sat code rest
         | Some (i, c) \<Rightarrow>
             (case py_index code (i - 1) of
                Inl e \<Rightarrow> Inl e
              | Inr s \<Rightarrow> if s \<noteq> c then Inr True else clause_sat code rest))
      else
        (case parse_literal literal of
           None \<Rightarrow> clause_sat code rest
         | Some (i, c) \<Rightarrow>
             (case py_index code (i - 1) of
                Inl e \<Rightarrow> Inl e
              | Inr s \<Rightarrow> if s = c then Inr True else clause_sat code rest)))"

fun code_satisfies_cnf :: "code \<Rightarrow> clause list \<Rightarrow> py_error + bool" where
  "code_satisfies_cnf code [] = Inr True"
| "code_satisfies_cnf code (clause # cnf) =
     (case clause_sat code clause of
        Inl e \<Rightarrow> Inl e
      | Inr sat \<Rightarrow> if \<not> sat then Inr False else code_satisfies_cnf code cnf)"

text \<open>The f-string \<open>f"~Color({i+1}, '{guess[i]}')"\<close>.\<close>

definition literal_text :: "nat \<Rightarrow> string \<Rightarrow> literal" where
  "literal_text i colour = ''~Color('' @ str_nat (i + 1) @ '', '' @ [CHR 0x27] @ colour @ [CHR 0x27] @ '')''"

text \<open>The loop \<open>for i in range(PEGS)\<close> of \<open>derive_simple_cnf_constraints\<close>; \<open>guess[i]\<close>
  raises \<open>IndexError\<close> past the end of the guess.\<close>

fun negative_clauses :: "code \<Rightarrow> nat list \<Rightarrow> py_error + clause list" where
  "negative_clauses guess [] = Inr []"
| "negative_clauses guess (i # rest) =
     (if i < length guess
      then (case negative_clauses guess rest of
              Inl e \<Rightarrow> Inl e
            | Inr clauses \<Rightarrow> Inr ([literal_text i (guess ! i)] # clauses))
      else Inl IndexError)"

definition derive_simple_cnf_constraints :: "code \<Rightarrow> feedback \<Rightarrow> py_error + clause list" where
  "derive_simple_cnf_constraints guess fb =
     (let (black, white) = fb
      in if black = 0 then negative_clauses guess [0..<nat PEGS] else Inr [])"

text \<open>\<open>[code for code in remaining if code_satisfies_cnf(code, cnf_premises)]\<close>.\<close>

fun filter_cnf :: "clause list \<Rightarrow> code list \<Rightarrow> py_error + code list" where
  "filter_cnf cnf [] = Inr []"
| "filter_cnf cnf (code # rest) =
     (case code_satisfies_cnf code cnf of
        Inl e \<Rightarrow> Inl e
      | Inr keep \<Rightarrow>
          (case filter_cnf cnf rest of
             Inl e \<Rightarrow> Inl e
           | Inr kept \<Rightarrow> Inr (if keep then code # kept else kept)))"

subsection \<open>The solver\<close>

record cnf_state = solver_state +
  cnf_premises :: "clause list"

definition cnf_initial_state :: "code list \<Rightarrow> rng \<Rightarrow> cnf_state" where
  "cnf_initial_state all_codes g =
     \<lparr>remaining = all_codes, guess_history = [], turn = 0, printed = [], premises_list = [],
      rng = g, cnf_premises = []\<rparr>"

text \<open>What the bodies of both loops share, from \<open>turn += 1\<close> to the second filter. The
  success test comes before the premise is recorded.\<close>

definition cnf_turn :: "code \<Rightarrow> cnf_state \<Rightarrow> py_error + (flow \<times> cnf_state)" where
  "cnf_turn secret st =
     (case random_choice (rng st) (remaining st) of
        Inl e \<Rightarrow> Inl e
      | Inr (guess, g') \<Rightarrow>
          let t = turn st + 1;
              fb = get_feedback secret guess;
              st1 = st\<lparr>turn := t, rng := g',
                       guess_history := guess_history st @ [guess],
                       printed := printed st @ announce t guess fb\<rparr>
          in if fb = (PEGS, 0)
             then Inr (Found, st1\<lparr>printed := printed st1 @ [FoundMsg t]\<rparr>)
             else
               (case derive_simple_cnf_constraints guess fb of
                  Inl e \<Rightarrow> Inl e
                | Inr new_clauses \<Rightarrow>
                    let prems = premises_list st @ [(guess, fb)];
                        cnf = cnf_premises st @ new_clauses;
                        by_premises = filter (\<lambda>code. list_all (\<lambda>(g, f). get_feedback code g = f) prems)
                                             (remaining st)
                    in (case filter_cnf cnf by_premises of
                          Inl e \<Rightarrow> Inl e
                        | Inr by_cnf \<Rightarrow>
                            Inr (Next, st1\<lparr>premises_list := prems, cnf_premises := cnf,
                                           remaining := by_cnf\<rparr>))))"

text \<open>The body of the loop of phase 1 starts with the test \<open>if not remaining\<close>.\<close>

definition cnf_explore_turn :: "code \<Rightarrow> cnf_state \<Rightarrow> py_error + (flow \<times> cnf_state)" where
  "cnf_explore_turn secret st =
     (if remaining st = [] then Inr (Exhausted, st\<lparr>printed := printed st @ [NoCandidatesMsg]\<rparr>)
      else cnf_turn secret st)"

fun cnf_exploration :: "code \<Rightarrow> nat \<Rightarrow> cnf_state \<Rightarrow> py_error + (flow \<times> cnf_state)" where
  "cnf_exploration secret 0 st = Inr (Next, st)"
| "cnf_exploration secret (Suc n) st =
     (case cnf_explore_turn secret st of
        Inl e \<Rightarrow> Inl e
      | Inr (Next, st') \<Rightarrow> cnf_exploration secret n st'
      | Inr (fl, st') \<Rightarrow> Inr (fl, st'))"

text \<open>The body of the loop of phase 2 ends with the test \<open>if not remaining\<close>.\<close>

definition cnf_inference_turn :: "code \<Rightarrow> cnf_state \<Rightarrow> py_error + (flow \<times> cnf_state)" where
  "cnf_inference_turn secret st =
     (case cnf_turn secret st of
        Inl e \<Rightarrow> Inl e
      | Inr (Next, st') \<Rightarrow>
          if remaining st' = [] then Inr (Exhausted, st'\<lparr>printed := printed st' @ [NoCandidatesMsg]\<rparr>)
          else Inr (Next, st')
      | Inr (fl, st') \<Rightarrow> Inr (fl, st'))"

partial_function (option) cnf_inference_loop :: "code \<Rightarrow> cnf_state \<Rightarrow> (py_error + cnf_state) option" where
  "cnf_inference_loop secret st =
     (if remaining st = [] then Some (Inr st)
      else (case cnf_inference_turn secret st of
              Inl e \<Rightarrow> Some (Inl e)
            | Inr (Next, st') \<Rightarrow> cnf_inference_loop secret st'
            | Inr (fl, st') \<Rightarrow> Some (Inr st')))"

declare cnf_inference_loop.simps [code]

definition logical_inference_run_CNF :: "code \<Rightarrow> int \<Rightarrow> rng \<Rightarrow> (py_error + cnf_state) option" where
  "logical_inference_run_CNF secret num_initial_guesses g =
     (case itertools_product COLORS PEGS of
        Inl e \<Rightarrow> Some (Inl e)
      | Inr all_codes \<Rightarrow>
          (case cnf_exploration secret (nat num_initial_guesses) (cnf_initial_state all_codes g) of
             Inl e \<Rightarrow> Some (Inl e)
           | Inr (Next, st) \<Rightarrow> cnf_inference_loop secret st
           | Inr (fl, st) \<Rightarrow> Some (Inr st)))"

definition logical_inference_solver_CNF :: "code \<Rightarrow> int \<Rightarrow> rng \<Rightarrow> (py_error + code list) option" where
  "logical_inference_solver_CNF secret num_initial_guesses g =
     map_option (map_sum id guess_history) (logical_inference_run_CNF secret num_initial_guesses g)"

section \<open>The specification's own formulations\<close>

text \<open>
  The score of the specification's scored inference: the sum over the recorded premises
  \<open>(g, f)\<close> of \<open>|evaluate(c, g).black - f.black| + |evaluate(c, g).white - f.white|\<close>.
\<close>

definition spec_score :: "(code \<times> feedback) list \<Rightarrow> code \<Rightarrow> int" where
  "spec_score prems c =
     (\<Sum>(g, f)\<leftarrow>prems. \<bar>fst (get_feedback c g) - fst f\<bar> + \<bar>snd (get_feedback c g) - snd f\<bar>)"

text \<open>
  The worst case of a guess in the specification's minimax: the candidates are grouped by
  the feedback each would produce against the guess, and the worst case is the size of
  the largest group.
\<close>

definition group_size :: "code list \<Rightarrow> code \<Rightarrow> feedback \<Rightarrow> nat" where
  "group_size rem guess fb = length (filter (\<lambda>c. get_feedback c guess = fb) rem)"

definition worst_case_size :: "code list \<Rightarrow> code \<Rightarrow> nat" where
  "worst_case_size rem guess = Max ((\<lambda>c. group_size rem guess (get_feedback c guess)) ` set rem)"

section \<open>Sample states\<close>

text \<open>A state of the scored-inference solver after the guess \<open>a\<close> has been answered with
  \<open>(0, 0)\<close>, the candidate list not yet filtered (codes of one peg).\<close>

definition sample_state :: solver_state where
  "sample_state =
     \<lparr>remaining = [[''a''], [''b''], [''c'']], guess_history = [[''a'']], turn = 1,
      printed = [TurnMsg 1 [''a''], BlackMsg 0, WhiteMsg 0],
      premises_list = [([''a''], (0, 0))], rng = (\<lambda>_. 0)\<rparr>"

text \<open>A state of the CNF solver with two candidates left.\<close>

definition sample_cnf_state :: cnf_state where
  "sample_cnf_state =
     \<lparr>remaining = [[''red'', ''red'', ''red'', ''red'', ''red''],
                   [''blue'', ''blue'', ''blue'', ''blue'', ''blue'']],
      guess_history = [], turn = 0, printed = [], premises_list = [], rng = (\<lambda>_. 0),
      cnf_premises = []\<rparr>"

text \<open>A state of the minimax solver after its first turn, for codes of one peg.\<close>

definition sample_run_state :: run_state where
  "sample_run_state =
     \<lparr>remaining = [[''a''], [''b''], [''c'']], guess_history = [initial_guess], turn = 1,
      printed = [TurnMsg 1 initial_guess, BlackMsg 0, WhiteMsg 0, NoProgressMsg]\<rparr>"

text \<open>States in which one candidate is left, for codes of one peg.\<close>

definition narrowed_state :: solver_state where
  "narrowed_state =
     \<lparr>remaining = [[''b'']], guess_history = [[''a'']], turn = 1,
      printed = [TurnMsg 1 [''a''], BlackMsg 0, WhiteMsg 0],
      premises_list = [([''a''], (0, 0))], rng = (\<lambda>_. 0)\<rparr>"

definition narrowed_run_state :: run_state where
  "narrowed_run_state =
     \<lparr>remaining = [[''a'']], guess_history = [initial_guess], turn = 1,
      printed = [TurnMsg 1 initial_guess, BlackMsg 0, WhiteMsg 0, NoProgressMsg]\<rparr>"

section \<open>Invariants used in the proofs\<close>

text \<open>What the first loop of \<open>minimax_guess\<close> holds after the guesses \<open>S\<close>: nothing yet, or a
  guess of \<open>S\<close> with its worst case, which no guess of \<open>S\<close> beats.\<close>

definition pass_ok :: "code list \<Rightarrow> best \<times> code option \<Rightarrow> code set \<Rightarrow> bool" where
  "pass_ok rem acc S =
     ((acc = (PosInf, None) \<and> S = {}) \<or>
      (\<exists>g\<in>S. acc = (Num (int (worst_case_size rem g)), Some g)
          \<and> (\<forall>c\<in>S. worst_case_size rem g \<le> worst_case_size rem c)))"

section \<open>Turns as relations\<close>

text \<open>
  One turn of a solver as a relation between the state before it, the way its loop body
  ends, and the state after it. A turn of the scored-inference solver is a pass through
  the loop of phase 1 or of phase 2, and likewise for the CNF solver.
\<close>

definition inference_step :: "code \<Rightarrow> int \<Rightarrow> solver_state \<Rightarrow> flow \<Rightarrow> solver_state \<Rightarrow> bool" where
  "inference_step secret pegs st fl st' =
     (explore_turn secret pegs st = Inr (fl, st') \<or> inference_turn secret pegs st = Inr (fl, st'))"

definition cnf_step :: "code \<Rightarrow> cnf_state \<Rightarrow> flow \<Rightarrow> cnf_state \<Rightarrow> bool" where
  "cnf_step secret st fl st' =
     (cnf_explore_turn secret st = Inr (fl, st') \<or> cnf_inference_turn secret st = Inr (fl, st'))"

definition minimax_step :: "code \<Rightarrow> int \<Rightarrow> code list \<Rightarrow> run_state \<Rightarrow> flow \<Rightarrow> run_state \<Rightarrow> bool" where
  "minimax_step secret pegs all_codes st fl st' =
     (minimax_turn secret pegs all_codes st = Inr (fl, st'))"

section \<open>Invariants of a run against a true secret\<close>

text \<open>The secret is among the candidates, and every recorded premise is the feedback the
  secret gives to the recorded guess.\<close>

definition consistent :: "code \<Rightarrow> 'a solver_state_scheme \<Rightarrow> bool" where
  "consistent secret st =
     (secret \<in> set (remaining st) \<and>
      list_all (\<lambda>(g, f). get_feedback secret g = f) (premises_list st))"

text \<open>The one-literal clause the CNF solver writes for position \<open>i\<close> and colour \<open>c\<close>.\<close>

definition unit_clause :: "nat \<times> string \<Rightarrow> clause" where
  "unit_clause p = [literal_text (fst p) (snd p)]"

text \<open>In the CNF solver moreover the candidates are codes of the space, and the clauses
  are clauses the solver wrote, each excluding a colour the secret does not have at that
  position.\<close>

definition cnf_consistent :: "code \<Rightarrow> cnf_state \<Rightarrow> bool" where
  "cnf_consistent secret st =
     (consistent secret st \<and>
      set (remaining st) \<subseteq> set (product_repeat COLORS 5) \<and>
      (\<exists>ps. cnf_premises st = map unit_clause ps \<and>
            list_all (\<lambda>(i, c). i < 5 \<and> c \<in> set COLORS \<and> secret ! i \<noteq> c) ps))"

text \<open>In the minimax solver the candidates are codes of \<open>all_codes\<close>.\<close>

definition minimax_consistent :: "code \<Rightarrow> code list \<Rightarrow> run_state \<Rightarrow> bool" where
  "minimax_consistent secret all_codes st =
     (secret \<in> set (remaining st) \<and> set (remaining st) \<subseteq> set all_codes)"

section \<open>Solved runs\<close>

text \<open>The state of a run that has returned through the success branch in its last turn:
  the last lines printed are the header of that turn with the secret as the guess, the
  feedback \<open>(pegs, 0)\<close> and the success line, and the secret is the last guess of the
  history.\<close>

definition solved_by :: "code \<Rightarrow> int \<Rightarrow> 'a run_state_scheme \<Rightarrow> bool" where
  "solved_by secret pegs r =
     (\<exists>out hist. printed r = out @ [TurnMsg (turn r) secret, BlackMsg pegs, WhiteMsg 0, FoundMsg (turn r)]
        \<and> guess_history r = hist @ [secret])"

text \<open>What the progress argument keeps: the invariant of above, candidates of the secret's
  length, and a bound on the turns played plus the distinct candidates left.\<close>

definition on_track :: "code \<Rightarrow> int \<Rightarrow> nat \<Rightarrow> 'a solver_state_scheme \<Rightarrow> bool" where
  "on_track secret pegs bound st =
     (consistent secret st \<and> int (length secret) = pegs
      \<and> (\<forall>c\<in>set (remaining st). length c = length secret)
      \<and> turn st + card (set (remaining st)) \<le> bound)"

text \<open>The same for the minimax solver, whose candidates are codes of \<open>all_codes\<close>.\<close>

definition minimax_on_track :: "code \<Rightarrow> int \<Rightarrow> code list \<Rightarrow> nat \<Rightarrow> run_state \<Rightarrow> bool" where
  "minimax_on_track secret pegs all_codes bound st =
     (minimax_consistent secret all_codes st \<and> int (length secret) = pegs
      \<and> (\<forall>c\<in>set all_codes. length c = length secret)
      \<and> (turn st = 0 \<longrightarrow> initial_guess \<in> set (remaining st))
      \<and> turn st + card (set (remaining st)) \<le> bound)"

section \<open>Properties of the feedback oracle\<close>

lemma count_notin: "c \<notin> set xs \<Longrightarrow> count xs c = 0"
  by (simp add: count_def)

lemma count_nonneg: "0 \<le> count xs c"
  by (simp add: count_def)

lemma black_length:
  "(\<Sum>(s, g)\<leftarrow>filter (\<lambda>(s, g). s = g) xs. (1::int)) = int (length (filter (\<lambda>(s, g). s = g) xs))"
  by (induction xs) auto

lemma black_bools_length:
  "(\<Sum>(s, g)\<leftarrow>xs. if s = g then (1::int) else 0) = int (length (filter (\<lambda>(s, g). s = g) xs))"
  by (induction xs) auto

lemma get_feedback_bools:
  "get_feedback secret guess =
     (black_of_bools secret guess,
      sum_list (map (\<lambda>c. min (count secret c) (count guess c)) (remdups guess)) - black_of_bools secret guess)"
  by (simp add: get_feedback_def Let_def black_of_bools_def black_length black_bools_length)

lemma black_sym:
  "length (filter (\<lambda>(s, g). s = g) (zip a b)) = length (filter (\<lambda>(s, g). s = g) (zip b a))"
proof (induction a arbitrary: b)
  case Nil
  then show ?case by simp
next
  case (Cons x xs)
  then show ?case by (cases b) auto
qed

lemma white_sum_set:
  assumes "finite A" and "set a \<inter> set b \<subseteq> A"
  shows "sum_list (map (\<lambda>c. min (count a c) (count b c)) (remdups b))
       = (\<Sum>c\<in>A. min (count a c) (count b c))"
proof -
  have "sum_list (map (\<lambda>c. min (count a c) (count b c)) (remdups b))
      = (\<Sum>c\<in>set b. min (count a c) (count b c))"
    by (simp add: sum_list_distinct_conv_sum_set)
  also have "\<dots> = (\<Sum>c\<in>set a \<inter> set b. min (count a c) (count b c))"
  proof (rule sum.mono_neutral_right)
    show "\<forall>i\<in>set b - set a \<inter> set b. min (count a i) (count b i) = 0"
    proof
      fix i assume "i \<in> set b - set a \<inter> set b"
      then have "i \<notin> set a" by blast
      then show "min (count a i) (count b i) = 0"
        using count_nonneg[of b i] by (simp add: count_notin)
    qed
  qed auto
  also have "\<dots> = (\<Sum>c\<in>A. min (count a c) (count b c))"
  proof (rule sum.mono_neutral_left)
    show "\<forall>i\<in>A - set a \<inter> set b. min (count a i) (count b i) = 0"
    proof
      fix i assume "i \<in> A - set a \<inter> set b"
      then have "i \<notin> set a \<or> i \<notin> set b" by blast
      then show "min (count a i) (count b i) = 0"
        using count_nonneg[of a i] count_nonneg[of b i] by (auto simp: count_notin)
    qed
  qed (use assms in auto)
  finally show ?thesis .
qed

lemma black_card:
  "length a = length b \<Longrightarrow>
   length (filter (\<lambda>(s, g). s = g) (zip a b)) = card {i. i < length b \<and> a ! i = b ! i}"
  unfolding length_filter_conv_card
  by (rule arg_cong[where f=card]) auto

lemma match_count_left:
  "count_list (map fst (filter (\<lambda>(s, g). s = g) (zip a b))) c \<le> count_list a c"
proof (induction a arbitrary: b)
  case Nil
  then show ?case by simp
next
  case (Cons x xs)
  then show ?case by (cases b) (auto intro: le_SucI)
qed

lemma match_count_right:
  "count_list (map fst (filter (\<lambda>(s, g). s = g) (zip a b))) c \<le> count_list b c"
proof (induction a arbitrary: b)
  case Nil
  then show ?case by simp
next
  case (Cons x xs)
  then show ?case by (cases b) (auto intro: le_SucI)
qed

lemma black_le_overlap:
  "int (length (filter (\<lambda>(s, g). s = g) (zip a b))) \<le> (\<Sum>c\<in>set b. min (count a c) (count b c))"
proof -
  let ?m = "map fst (filter (\<lambda>(s, g). s = g) (zip a b))"
  have sub: "set ?m \<subseteq> set b"
    by (auto dest: set_zip_rightD)
  have "int (length ?m) = int (sum (count_list ?m) (set b))"
    using sum_count_set[OF sub] by simp
  also have "\<dots> = (\<Sum>c\<in>set b. count ?m c)"
    by (simp add: count_def)
  also have "\<dots> \<le> (\<Sum>c\<in>set b. min (count a c) (count b c))"
    by (rule sum_mono) (simp add: count_def match_count_left match_count_right)
  finally show ?thesis by simp
qed

lemma overlap_le_length: "(\<Sum>c\<in>set b. min (count a c) (count b c)) \<le> int (length b)"
proof -
  have "(\<Sum>c\<in>set b. min (count a c) (count b c)) \<le> (\<Sum>c\<in>set b. count b c)"
    by (rule sum_mono) simp
  also have "\<dots> = int (length b)"
    unfolding count_def using sum_count_set[of b "set b"] by (simp flip: of_nat_sum)
  finally show ?thesis .
qed

lemma fst_get_feedback:
  "fst (get_feedback a b) = int (length (filter (\<lambda>(s, g). s = g) (zip a b)))"
  by (simp add: get_feedback_def Let_def black_length)

lemma sum_get_feedback:
  "fst (get_feedback a b) + snd (get_feedback a b) = (\<Sum>c\<in>set b. min (count a c) (count b c))"
  by (simp add: get_feedback_def Let_def sum_list_distinct_conv_sum_set)

lemma get_feedback_self: "get_feedback a a = (int (length a), 0)"
proof -
  have "filter (\<lambda>(s, g). s = g) (zip a a) = zip a a"
    by (induction a) auto
  then have b: "fst (get_feedback a a) = int (length a)"
    by (simp add: fst_get_feedback)
  have "(\<Sum>c\<in>set a. min (count a c) (count a c)) = int (length a)"
    unfolding count_def using sum_count_set[of a "set a"] by (simp flip: of_nat_sum)
  with b sum_get_feedback[of a a] have "snd (get_feedback a a) = 0" by simp
  with b show ?thesis by (simp add: prod_eq_iff)
qed

lemma black_full_eq:
  "length a = length b \<Longrightarrow> length (filter (\<lambda>(s, g). s = g) (zip a b)) = length b \<Longrightarrow> a = b"
proof (induction a b rule: list_induct2)
  case Nil
  then show ?case by simp
next
  case (Cons x xs y ys)
  have le: "length (filter (\<lambda>(s, g). s = g) (zip xs ys)) \<le> length ys"
    using length_filter_le[of "\<lambda>(s, g). s = g" "zip xs ys"] Cons.hyps by simp
  show ?case
  proof (cases "x = y")
    case True
    with Cons show ?thesis by simp
  next
    case False
    with Cons.prems le show ?thesis by simp
  qed
qed

text \<open>
  C1. For codes of equal length \<open>P\<close>, \<open>get_feedback\<close> returns \<open>(black, white)\<close> where
  \<open>black\<close> is the number of positions at which secret and guess agree and \<open>white\<close> is the
  sum, over the distinct symbols (any finite set of symbols that contains those common to
  both codes: the symbols of the guess, of the secret, or the alphabet), of the smaller of
  the two counts, minus \<open>black\<close>; and \<open>0 \<le> black \<le> P\<close>, \<open>black + white \<le> P\<close>
  (and \<open>0 \<le> white\<close>).
\<close>

theorem get_feedback_spec:
  assumes "length secret = P" and "length guess = P"
    and "finite A" and "set secret \<inter> set guess \<subseteq> A"
  shows "get_feedback secret guess =
           (int (card {i. i < P \<and> secret ! i = guess ! i}),
            (\<Sum>c\<in>A. min (count secret c) (count guess c)) - int (card {i. i < P \<and> secret ! i = guess ! i}))
         \<and> 0 \<le> fst (get_feedback secret guess)
         \<and> fst (get_feedback secret guess) \<le> int P
         \<and> 0 \<le> snd (get_feedback secret guess)
         \<and> fst (get_feedback secret guess) + snd (get_feedback secret guess) \<le> int P"
proof -
  have len: "length secret = length guess" using assms by simp
  have b: "fst (get_feedback secret guess) = int (card {i. i < P \<and> secret ! i = guess ! i})"
    using black_card[OF len] assms(2) by (simp add: fst_get_feedback)
  have w: "snd (get_feedback secret guess)
         = (\<Sum>c\<in>A. min (count secret c) (count guess c)) - fst (get_feedback secret guess)"
    using white_sum_set[OF assms(3,4)] by (simp add: get_feedback_def Let_def black_length)
  have le: "fst (get_feedback secret guess) \<le> int P"
    using length_filter_le[of "\<lambda>(s, g). s = g" "zip secret guess"] assms
    by (simp add: fst_get_feedback)
  have nonneg: "0 \<le> snd (get_feedback secret guess)"
    using black_le_overlap[of secret guess] sum_get_feedback[of secret guess]
    by (simp add: fst_get_feedback)
  have total: "fst (get_feedback secret guess) + snd (get_feedback secret guess) \<le> int P"
    using overlap_le_length[of secret guess] assms(2) by (simp add: sum_get_feedback)
  from b w le nonneg total show ?thesis
    by (simp add: prod_eq_iff)
qed

theorem get_feedback_spec_witness:
  "get_feedback [''red'', ''blue'', ''red''] [''blue'', ''blue'', ''green''] =
           (int (card {i. i < 3 \<and> [''red'', ''blue'', ''red''] ! i = [''blue'', ''blue'', ''green''] ! i}),
            (\<Sum>c\<in>{''red'', ''blue'', ''green''}.
                min (count [''red'', ''blue'', ''red''] c) (count [''blue'', ''blue'', ''green''] c))
              - int (card {i. i < 3 \<and> [''red'', ''blue'', ''red''] ! i = [''blue'', ''blue'', ''green''] ! i}))
   \<and> get_feedback [''red'', ''blue'', ''red''] [''blue'', ''blue'', ''green''] = (1, 0)"
proof -
  have "get_feedback [''red'', ''blue'', ''red''] [''blue'', ''blue'', ''green''] = (1, 0)"
    by (simp add: get_feedback_def count_def)
  moreover have "finite {''red'', ''blue'', ''green''}" by simp
  moreover have "set [''red'', ''blue'', ''red''] \<inter> set [''blue'', ''blue'', ''green'']
                 \<subseteq> {''red'', ''blue'', ''green''}" by simp
  ultimately show ?thesis
    using get_feedback_spec[of "[''red'', ''blue'', ''red'']" 3 "[''blue'', ''blue'', ''green'']"
                               "{''red'', ''blue'', ''green''}"]
    by simp
qed

text \<open>
  C5. The feedback of two codes does not depend on which of them is the secret:
  \<open>get_feedback a b = get_feedback b a\<close> (for codes of any lengths, equal ones among them).
\<close>

theorem get_feedback_symmetric: "get_feedback a b = get_feedback b a"
proof -
  have "sum_list (map (\<lambda>c. min (count a c) (count b c)) (remdups b))
      = sum_list (map (\<lambda>c. min (count b c) (count a c)) (remdups a))"
    using white_sum_set[of "set a \<inter> set b" a b] white_sum_set[of "set a \<inter> set b" b a]
    by (simp add: Int_commute min.commute)
  then show ?thesis
    unfolding get_feedback_def Let_def black_length by (simp add: black_sym)
qed

section \<open>Scored inference\<close>

lemma candidate_score_sum: "candidate_score prems c = spec_score prems c"
proof -
  have "foldl (\<lambda>score (prev_guess, prev_fb).
              let candidate_fb = get_feedback c prev_guess
              in score + (\<bar>fst candidate_fb - fst prev_fb\<bar> + \<bar>snd candidate_fb - snd prev_fb\<bar>)) a prems
      = a + (\<Sum>(g, f)\<leftarrow>prems. \<bar>fst (get_feedback c g) - fst f\<bar> + \<bar>snd (get_feedback c g) - snd f\<bar>)" for a
    by (induction prems arbitrary: a) (auto simp: Let_def)
  then show ?thesis by (simp add: candidate_score_def spec_score_def)
qed

lemma best_candidate_snoc:
  "best_candidate prems (xs @ [x]) =
     (let (best_guess, best_score) = best_candidate prems xs;
          score = candidate_score prems x
      in if less_best score best_score then (Some x, Num score) else (best_guess, best_score))"
  by (simp add: best_candidate_def Let_def split: prod.splits)

lemma best_candidate_first_min:
  "xs \<noteq> [] \<Longrightarrow>
   \<exists>i<length xs. best_candidate prems xs = (Some (xs ! i), Num (candidate_score prems (xs ! i)))
      \<and> (\<forall>j<length xs. candidate_score prems (xs ! i) \<le> candidate_score prems (xs ! j))
      \<and> (\<forall>j<i. candidate_score prems (xs ! i) < candidate_score prems (xs ! j))"
proof (induction xs rule: rev_induct)
  case Nil
  then show ?case by simp
next
  case (snoc x xs)
  show ?case
  proof (cases "xs = []")
    case True
    then show ?thesis by (simp add: best_candidate_def)
  next
    case False
    from snoc.IH[OF False] obtain i where i: "i < length xs"
      and b: "best_candidate prems xs = (Some (xs ! i), Num (candidate_score prems (xs ! i)))"
      and mn: "\<forall>j<length xs. candidate_score prems (xs ! i) \<le> candidate_score prems (xs ! j)"
      and fi: "\<forall>j<i. candidate_score prems (xs ! i) < candidate_score prems (xs ! j)"
      by blast
    show ?thesis
    proof (cases "candidate_score prems x < candidate_score prems (xs ! i)")
      case True
      have "best_candidate prems (xs @ [x]) = (Some x, Num (candidate_score prems x))"
        using b True by (simp add: best_candidate_snoc)
      moreover have "\<forall>j<length (xs @ [x]). candidate_score prems x \<le> candidate_score prems ((xs @ [x]) ! j)"
        using mn True by (auto simp: nth_append less_Suc_eq)
      moreover have "\<forall>j<length xs. candidate_score prems x < candidate_score prems ((xs @ [x]) ! j)"
        using mn True by (auto simp: nth_append)
      ultimately show ?thesis
        by (intro exI[of _ "length xs"]) simp
    next
      case False
      have "best_candidate prems (xs @ [x]) = (Some (xs ! i), Num (candidate_score prems (xs ! i)))"
        using b False by (simp add: best_candidate_snoc)
      moreover have "\<forall>j<length (xs @ [x]). candidate_score prems (xs ! i) \<le> candidate_score prems ((xs @ [x]) ! j)"
        using mn False by (auto simp: nth_append less_Suc_eq)
      moreover have "\<forall>j<i. candidate_score prems (xs ! i) < candidate_score prems ((xs @ [x]) ! j)"
        using fi i by (auto simp: nth_append)
      ultimately show ?thesis
        using i by (intro exI[of _ i]) (simp add: nth_append)
    qed
  qed
qed

lemma best_candidate_Some:
  "xs \<noteq> [] \<Longrightarrow> \<exists>c\<in>set xs. fst (best_candidate prems xs) = Some c"
  using best_candidate_first_min[of xs prems] by (auto simp: in_set_conv_nth)

text \<open>
  C6. In a turn of the scored-inference phase with a non-empty candidate list, the score
  the code computes for a candidate is the specification's sum over the premises, and the
  guess appended to the history is the candidate at the first index whose score is
  minimal: no candidate scores less, and every earlier candidate scores strictly more.
\<close>

theorem scored_inference_first_minimum:
  assumes "remaining st \<noteq> []"
  shows "\<exists>i<length (remaining st). \<exists>fl st'.
           inference_turn secret pegs st = Inr (fl, st')
         \<and> guess_history st' = guess_history st @ [remaining st ! i]
         \<and> (\<forall>c. candidate_score (premises_list st) c = spec_score (premises_list st) c)
         \<and> (\<forall>j<length (remaining st).
               spec_score (premises_list st) (remaining st ! i) \<le> spec_score (premises_list st) (remaining st ! j))
         \<and> (\<forall>j<i. spec_score (premises_list st) (remaining st ! i) < spec_score (premises_list st) (remaining st ! j))"
proof -
  from best_candidate_first_min[OF assms, of "premises_list st"] obtain i where i: "i < length (remaining st)"
    and b: "best_candidate (premises_list st) (remaining st)
            = (Some (remaining st ! i), Num (candidate_score (premises_list st) (remaining st ! i)))"
    and mn: "\<forall>j<length (remaining st). candidate_score (premises_list st) (remaining st ! i)
                \<le> candidate_score (premises_list st) (remaining st ! j)"
    and fi: "\<forall>j<i. candidate_score (premises_list st) (remaining st ! i)
                < candidate_score (premises_list st) (remaining st ! j)"
    by blast
  have "\<exists>fl st'. inference_turn secret pegs st = Inr (fl, st')
         \<and> guess_history st' = guess_history st @ [remaining st ! i]"
    by (simp add: inference_turn_def b Let_def)
  with i mn fi show ?thesis by (auto simp: candidate_score_sum)
qed

theorem scored_inference_first_minimum_witness:
  "remaining sample_state \<noteq> []
   \<and> (\<exists>i<length (remaining sample_state). \<exists>fl st'.
           inference_turn [''c''] 1 sample_state = Inr (fl, st')
         \<and> guess_history st' = guess_history sample_state @ [remaining sample_state ! i]
         \<and> (\<forall>c. candidate_score (premises_list sample_state) c = spec_score (premises_list sample_state) c)
         \<and> (\<forall>j<length (remaining sample_state).
               spec_score (premises_list sample_state) (remaining sample_state ! i)
                 \<le> spec_score (premises_list sample_state) (remaining sample_state ! j))
         \<and> (\<forall>j<i. spec_score (premises_list sample_state) (remaining sample_state ! i)
                 < spec_score (premises_list sample_state) (remaining sample_state ! j)))
   \<and> map (spec_score (premises_list sample_state)) (remaining sample_state) = [1, 0, 0]
   \<and> (\<exists>fl st'. inference_turn [''c''] 1 sample_state = Inr (fl, st')
         \<and> guess_history st' = [[''a''], [''b'']])"
proof -
  have ne: "remaining sample_state \<noteq> []"
    by (simp add: sample_state_def)
  have sc: "map (spec_score (premises_list sample_state)) (remaining sample_state) = [1, 0, 0]"
    by (simp add: sample_state_def spec_score_def get_feedback_def count_def)
  have ev: "\<exists>fl st'. inference_turn [''c''] 1 sample_state = Inr (fl, st')
         \<and> guess_history st' = [[''a''], [''b'']]"
    by (simp add: sample_state_def inference_turn_def best_candidate_def candidate_score_def
        get_feedback_def count_def Let_def announce_def)
  from ne scored_inference_first_minimum[OF ne, of "[''c'']" 1] sc ev show ?thesis
    by blast
qed

section \<open>The minimax choice\<close>

lemma partition_sizes_snoc:
  "partition_sizes (xs @ [x]) g =
     AList.update (get_feedback x g) (dict_get (partition_sizes xs g) (get_feedback x g) 0 + 1)
       (partition_sizes xs g)"
  by (simp add: partition_sizes_def Let_def)

lemma partition_sizes_distinct: "distinct (map fst (partition_sizes xs g))"
  by (induction xs rule: rev_induct) (simp_all add: partition_sizes_def Let_def distinct_update)

lemma partition_sizes_map_of:
  "map_of (partition_sizes xs g) fb =
     (if fb \<in> (\<lambda>c. get_feedback c g) ` set xs then Some (int (group_size xs g fb)) else None)"
proof (induction xs arbitrary: fb rule: rev_induct)
  case Nil
  then show ?case by (simp add: partition_sizes_def)
next
  case (snoc x xs)
  show ?case
  proof (cases "fb = get_feedback x g")
    case True
    then show ?thesis
      by (auto simp: partition_sizes_snoc update_conv' dict_get_def snoc.IH group_size_def filter_empty_conv image_iff)
  next
    case False
    then show ?thesis
      by (auto simp: partition_sizes_snoc update_conv' snoc.IH group_size_def)
  qed
qed

lemma partition_sizes_values:
  "set (map snd (partition_sizes xs g)) = (\<lambda>c. int (group_size xs g (get_feedback c g))) ` set xs"
proof -
  have "set (map snd (partition_sizes xs g)) = ran (map_of (partition_sizes xs g))"
    using partition_sizes_distinct[of xs g] by (simp add: ran_distinct)
  also have "\<dots> = (\<lambda>c. int (group_size xs g (get_feedback c g))) ` set xs"
  proof (intro set_eqI iffI)
    fix v assume "v \<in> ran (map_of (partition_sizes xs g))"
    then obtain fb where "map_of (partition_sizes xs g) fb = Some v" by (auto simp: ran_def)
    then show "v \<in> (\<lambda>c. int (group_size xs g (get_feedback c g))) ` set xs"
      by (auto simp: partition_sizes_map_of split: if_splits)
  next
    fix v assume "v \<in> (\<lambda>c. int (group_size xs g (get_feedback c g))) ` set xs"
    then obtain c where c: "c \<in> set xs" "v = int (group_size xs g (get_feedback c g))" by auto
    then have "map_of (partition_sizes xs g) (get_feedback c g) = Some v"
      by (simp add: partition_sizes_map_of)
    then show "v \<in> ran (map_of (partition_sizes xs g))" unfolding ran_def by blast
  qed
  finally show ?thesis .
qed

lemma py_max_Max: "xs \<noteq> [] \<Longrightarrow> py_max xs = Inr (Max (set xs))"
proof (cases xs)
  case Nil
  then show "xs \<noteq> [] \<Longrightarrow> ?thesis" by simp
next
  case (Cons y ys)
  have "foldl max y ys = fold max ys y"
    by (simp add: foldl_conv_fold max.commute)
  then show ?thesis using Cons Max.set_eq_fold[of y ys] by simp
qed

lemma worst_partition_eq:
  assumes "rem \<noteq> []"
  shows "worst_partition rem g = Inr (int (worst_case_size rem g))"
proof -
  have ne: "map snd (partition_sizes rem g) \<noteq> []"
    using partition_sizes_values[of rem g] assms by (metis image_is_empty set_empty)
  have "Max ((\<lambda>c. int (group_size rem g (get_feedback c g))) ` set rem)
        = int (Max ((\<lambda>c. group_size rem g (get_feedback c g)) ` set rem))"
    using assms mono_Max_commute[of int "(\<lambda>c. group_size rem g (get_feedback c g)) ` set rem"]
    by (simp add: image_image mono_def)
  then show ?thesis
    unfolding worst_partition_def py_max_Max[OF ne] partition_sizes_values worst_case_size_def
    by simp
qed

lemma first_pass_ok:
  assumes "rem \<noteq> []"
  shows "pass_ok rem acc S \<Longrightarrow> \<exists>acc'. first_pass rem cs acc = Inr acc' \<and> pass_ok rem acc' (S \<union> set cs)"
proof (induction cs arbitrary: acc S)
  case Nil
  then show ?case by simp
next
  case (Cons c cs)
  obtain bs bg where acc: "acc = (bs, bg)" by (cases acc)
  have step: "pass_ok rem (if less_best (int (worst_case_size rem c)) bs
                           then (Num (int (worst_case_size rem c)), Some c) else (bs, bg)) (S \<union> {c})"
    using Cons.prems unfolding pass_ok_def acc
    by (auto split: if_splits)
  from Cons.IH[OF step] show ?case
    by (auto simp: acc worst_partition_eq[OF assms] Un_assoc)
qed

lemma second_pass_result:
  assumes "rem \<noteq> []"
  shows "\<exists>g. second_pass rem cs (Num w) (Some g0) = Inr (Some g)
           \<and> ((g \<in> set cs \<and> int (worst_case_size rem g) = w \<and> g \<in> set rem)
              \<or> (g = g0 \<and> \<not> (\<exists>c\<in>set cs. int (worst_case_size rem c) = w \<and> c \<in> set rem)))"
  by (induction cs) (auto simp: worst_partition_eq[OF assms])

lemma minimax_guess_general:
  assumes "rem \<noteq> []" and "all_codes \<noteq> []"
  shows "\<exists>g. minimax_guess rem all_codes = Inr (Some g)
           \<and> g \<in> set all_codes
           \<and> (\<forall>c\<in>set all_codes. worst_case_size rem g \<le> worst_case_size rem c)
           \<and> ((\<exists>c\<in>set rem \<inter> set all_codes. \<forall>d\<in>set all_codes. worst_case_size rem c \<le> worst_case_size rem d)
                 \<longrightarrow> g \<in> set rem)"
proof -
  have "pass_ok rem (PosInf, None) {}" by (simp add: pass_ok_def)
  from first_pass_ok[OF assms(1) this, of all_codes]
  obtain acc where fp: "first_pass rem all_codes (PosInf, None) = Inr acc"
    and ok: "pass_ok rem acc (set all_codes)" by auto
  from ok assms(2) obtain g0 where g0: "g0 \<in> set all_codes"
    and acc: "acc = (Num (int (worst_case_size rem g0)), Some g0)"
    and mn: "\<forall>c\<in>set all_codes. worst_case_size rem g0 \<le> worst_case_size rem c"
    by (auto simp: pass_ok_def)
  from second_pass_result[OF assms(1), of all_codes "int (worst_case_size rem g0)" g0]
  obtain g where sp: "second_pass rem all_codes (Num (int (worst_case_size rem g0))) (Some g0) = Inr (Some g)"
    and alt: "(g \<in> set all_codes \<and> int (worst_case_size rem g) = int (worst_case_size rem g0) \<and> g \<in> set rem)
              \<or> (g = g0 \<and> \<not> (\<exists>c\<in>set all_codes. int (worst_case_size rem c) = int (worst_case_size rem g0) \<and> c \<in> set rem))"
    by blast
  have res: "minimax_guess rem all_codes = Inr (Some g)"
    by (simp add: minimax_guess_def fp acc sp)
  have mem: "g \<in> set all_codes" using alt g0 by auto
  have eq: "worst_case_size rem g = worst_case_size rem g0" using alt by auto
  have pref: "g \<in> set rem"
    if "\<exists>c\<in>set rem \<inter> set all_codes. \<forall>d\<in>set all_codes. worst_case_size rem c \<le> worst_case_size rem d"
  proof -
    from that obtain c where c: "c \<in> set rem" "c \<in> set all_codes"
      and cm: "\<forall>d\<in>set all_codes. worst_case_size rem c \<le> worst_case_size rem d" by auto
    have "worst_case_size rem c = worst_case_size rem g0"
      using cm g0 mn c by (simp add: order_antisym)
    with c alt show ?thesis by auto
  qed
  from res mem eq mn pref show ?thesis by auto
qed

text \<open>
  C3. For a non-empty candidate list \<open>remaining\<close> inside the code space \<open>all_codes\<close>,
  \<open>minimax_guess\<close> returns a code of \<open>all_codes\<close> whose worst case (the size of the largest
  group of \<open>remaining\<close> under the feedback against the guess) is at most that of every
  code of \<open>all_codes\<close>; the size the code computes is the specification's; and when a code
  of \<open>remaining\<close> attains the minimum, the returned guess is a member of \<open>remaining\<close>.
\<close>

theorem minimax_guess_optimal:
  assumes "rem \<noteq> []" and "set rem \<subseteq> set all_codes"
  shows "\<exists>g. minimax_guess rem all_codes = Inr (Some g)
           \<and> g \<in> set all_codes
           \<and> worst_partition rem g = Inr (int (worst_case_size rem g))
           \<and> (\<forall>c\<in>set all_codes. worst_case_size rem g \<le> worst_case_size rem c)
           \<and> ((\<exists>c\<in>set rem. \<forall>d\<in>set all_codes. worst_case_size rem c \<le> worst_case_size rem d)
                 \<longrightarrow> g \<in> set rem)"
proof -
  from assms have ne: "all_codes \<noteq> []" by auto
  from assms(2) have "set rem \<inter> set all_codes = set rem" by auto
  with minimax_guess_general[OF assms(1) ne] worst_partition_eq[OF assms(1)] show ?thesis
    by simp
qed

theorem minimax_guess_optimal_witness:
  "[[''a'']] \<noteq> [] \<and> set [[''a'']] \<subseteq> set [[''c''], [''a'']]
   \<and> (\<exists>g. minimax_guess [[''a'']] [[''c''], [''a'']] = Inr (Some g)
           \<and> g \<in> set [[''c''], [''a'']]
           \<and> worst_partition [[''a'']] g = Inr (int (worst_case_size [[''a'']] g))
           \<and> (\<forall>c\<in>set [[''c''], [''a'']]. worst_case_size [[''a'']] g \<le> worst_case_size [[''a'']] c)
           \<and> ((\<exists>c\<in>set [[''a'']]. \<forall>d\<in>set [[''c''], [''a'']]. worst_case_size [[''a'']] c \<le> worst_case_size [[''a'']] d)
                 \<longrightarrow> g \<in> set [[''a'']]))
   \<and> minimax_guess [[''a'']] [[''c''], [''a'']] = Inr (Some [''a''])
   \<and> worst_case_size [[''a'']] [''c''] = 1 \<and> worst_case_size [[''a'']] [''a''] = 1"
proof -
  have h1: "[[''a'']] \<noteq> ([] :: code list)" by simp
  have h2: "set [[''a'']] \<subseteq> set [[''c''], [''a'']]" by simp
  have ev: "minimax_guess [[''a'']] [[''c''], [''a'']] = Inr (Some [''a''])"
    by (simp add: minimax_guess_def worst_partition_def partition_sizes_def dict_get_def
        get_feedback_def count_def Let_def)
  have w: "worst_case_size [[''a'']] [''c''] = 1" "worst_case_size [[''a'']] [''a''] = 1"
    by (simp_all add: worst_case_size_def group_size_def)
  from h1 h2 minimax_guess_optimal[OF h1 h2] ev w show ?thesis by blast
qed

section \<open>What one turn does to the candidate list\<close>

lemma random_choice_mem: "random_choice g xs = Inr (x, g') \<Longrightarrow> x \<in> set xs"
  by (auto simp: random_choice_def split: if_splits)

lemma random_choice_Inr: "xs \<noteq> [] \<Longrightarrow> \<exists>x g'. random_choice g xs = Inr (x, g')"
  by (simp add: random_choice_def)

lemma explore_turn_remaining:
  assumes "explore_turn secret pegs st = Inr (fl, st')"
  shows "\<exists>guess\<in>set (remaining st).
           remaining st' = filter (\<lambda>code. get_feedback code guess = get_feedback secret guess) (remaining st)
         \<and> guess_history st' = guess_history st @ [guess]
         \<and> premises_list st' = premises_list st @ [(guess, get_feedback secret guess)]
         \<and> turn st' = turn st + 1
         \<and> (fl = Found \<and> get_feedback secret guess = (pegs, 0) \<or> fl = Next \<and> get_feedback secret guess \<noteq> (pegs, 0))"
proof -
  from assms obtain guess g' where rc: "random_choice (rng st) (remaining st) = Inr (guess, g')"
    by (auto simp: explore_turn_def split: sum.splits)
  from random_choice_mem[OF rc] have "guess \<in> set (remaining st)" .
  moreover from assms rc have "remaining st' = filter (\<lambda>code. get_feedback code guess = get_feedback secret guess) (remaining st)
         \<and> guess_history st' = guess_history st @ [guess]
         \<and> premises_list st' = premises_list st @ [(guess, get_feedback secret guess)]
         \<and> turn st' = turn st + 1
         \<and> (fl = Found \<and> get_feedback secret guess = (pegs, 0) \<or> fl = Next \<and> get_feedback secret guess \<noteq> (pegs, 0))"
    by (auto simp: explore_turn_def Let_def split: if_splits)
  ultimately show ?thesis by blast
qed

lemma inference_turn_remaining:
  assumes "inference_turn secret pegs st = Inr (fl, st')"
  shows "\<exists>guess\<in>set (remaining st).
           remaining st' = filter (\<lambda>code. list_all (\<lambda>(g, f). get_feedback code g = f)
                                      (premises_list st @ [(guess, get_feedback secret guess)])) (remaining st)
         \<and> guess_history st' = guess_history st @ [guess]
         \<and> premises_list st' = premises_list st @ [(guess, get_feedback secret guess)]
         \<and> turn st' = turn st + 1
         \<and> (fl = Found \<and> get_feedback secret guess = (pegs, 0)
            \<or> fl = Exhausted \<and> get_feedback secret guess \<noteq> (pegs, 0) \<and> remaining st' = []
            \<or> fl = Next \<and> get_feedback secret guess \<noteq> (pegs, 0) \<and> remaining st' \<noteq> [])"
proof (cases "remaining st = []")
  case True
  with assms show ?thesis
    by (simp add: inference_turn_def best_candidate_def random_choice_def)
next
  case False
  from best_candidate_Some[OF False, of "premises_list st"] obtain c where
    c: "c \<in> set (remaining st)" "fst (best_candidate (premises_list st) (remaining st)) = Some c" by blast
  with assms show ?thesis
    by (auto simp: inference_turn_def Let_def split: if_splits)
qed

lemma filter_cnf_sub:
  "filter_cnf cnf xs = Inr ys \<Longrightarrow> length ys \<le> length xs \<and> set ys \<subseteq> set xs"
proof (induction xs arbitrary: ys)
  case Nil
  then show ?case by simp
next
  case (Cons x xs)
  then show ?case
    by (fastforce split: sum.splits if_splits)
qed

lemma cnf_turn_remaining:
  assumes "cnf_turn secret st = Inr (fl, st')"
  shows "length (remaining st') \<le> length (remaining st) \<and> set (remaining st') \<subseteq> set (remaining st)"
proof -
  have *: "length ys \<le> length (filter P xs) \<Longrightarrow> length ys \<le> length xs" for ys :: "code list" and P xs
    using le_trans[OF _ length_filter_le[of P xs]] by blast
  from assms show ?thesis
    by (auto simp: cnf_turn_def Let_def split: sum.splits if_splits prod.splits
        dest!: filter_cnf_sub intro: *)
qed

lemma cnf_step_remaining:
  assumes "cnf_step secret st fl st'"
  shows "length (remaining st') \<le> length (remaining st)"
proof -
  have "\<exists>fl0 st0. cnf_turn secret st = Inr (fl0, st0) \<and> remaining st' = remaining st0"
    if "remaining st \<noteq> [] \<or> cnf_explore_turn secret st \<noteq> Inr (fl, st')"
    using that assms
    by (auto simp: cnf_step_def cnf_explore_turn_def cnf_inference_turn_def
        split: if_splits sum.splits prod.splits flow.splits)
  moreover have "remaining st' = []"
    if "remaining st = []" "cnf_explore_turn secret st = Inr (fl, st')"
    using that by (auto simp: cnf_explore_turn_def)
  ultimately show ?thesis
    using cnf_turn_remaining by fastforce
qed

lemma minimax_turn_remaining:
  assumes "minimax_turn secret pegs all_codes st = Inr (fl, st')"
  shows "length (remaining st') \<le> length (remaining st) \<and> set (remaining st') \<subseteq> set (remaining st)"
proof -
  have r: "length (remove1 g xs) \<le> length xs" for g :: code and xs
    by (simp add: length_remove1)
  have s: "x \<in> set (remove1 g xs) \<Longrightarrow> x \<in> set xs" for x g :: code and xs
    by (meson notin_set_remove1)
  from assms show ?thesis
    by (auto simp: minimax_turn_def Let_def r split: sum.splits if_splits option.splits dest: s)
qed

lemma inference_step_remaining:
  assumes "inference_step secret pegs st fl st'"
  shows "length (remaining st') \<le> length (remaining st)"
  using assms explore_turn_remaining[of secret pegs st fl st'] inference_turn_remaining[of secret pegs st fl st']
  by (auto simp: inference_step_def)


subsection \<open>Turns on the sample states\<close>

lemma str_nat_digit: "n < 10 \<Longrightarrow> str_nat n = [digit_char n]"
  by simp

lemma sample_inference_turn:
  "\<exists>s'. inference_turn [''c''] 1 sample_state = Inr (Next, s') \<and> remaining s' = [[''c'']]"
  by (simp add: sample_state_def inference_turn_def best_candidate_def candidate_score_def
      get_feedback_def count_def Let_def announce_def)

lemma sample_cnf_turn:
  "\<exists>s'. cnf_turn [''blue'', ''blue'', ''blue'', ''blue'', ''blue''] sample_cnf_state = Inr (Next, s')
    \<and> remaining s' = [[''blue'', ''blue'', ''blue'', ''blue'', ''blue'']]"
  by (simp add: sample_cnf_state_def cnf_turn_def random_choice_def get_feedback_def count_def Let_def
       derive_simple_cnf_constraints_def PEGS_def upt_conv_Cons literal_text_def digit_char_def
       parse_literal_def py_int_def py_strip_def strip_where_def is_space_def py_strip_chars_def
       unsigned_int_def is_digit_def digit_value_def py_index_def announce_def
       del: str_nat.simps add: str_nat_digit)

lemma sample_minimax_turn:
  "\<exists>s'. minimax_turn [''c''] 1 [[''a''], [''b''], [''c'']] sample_run_state = Inr (Next, s')
    \<and> remaining s' = [[''b''], [''c'']]"
  by (simp add: sample_run_state_def minimax_turn_def minimax_guess_def worst_partition_def
      partition_sizes_def dict_get_def get_feedback_def count_def Let_def announce_def)

text \<open>
  C4. Across the turns of a run of each of the three solvers the length of \<open>remaining\<close>
  never grows: whatever sequence of turns leads from one state to another (premise
  filtering in phase 1 and phase 2, premise and clause filtering of the CNF solver, the
  filter or the forced removal of the minimax solver), the later list is at most as long
  as the earlier one.
\<close>

theorem remaining_never_grows:
  "((\<lambda>s s'. \<exists>fl. inference_step secret1 pegs1 s fl s')\<^sup>*\<^sup>* st1 st1'
      \<longrightarrow> length (remaining st1') \<le> length (remaining st1))
   \<and> ((\<lambda>s s'. \<exists>fl. cnf_step secret2 s fl s')\<^sup>*\<^sup>* st2 st2'
      \<longrightarrow> length (remaining st2') \<le> length (remaining st2))
   \<and> ((\<lambda>s s'. \<exists>fl. minimax_step secret3 pegs3 all_codes s fl s')\<^sup>*\<^sup>* st3 st3'
      \<longrightarrow> length (remaining st3') \<le> length (remaining st3))"
proof (intro conjI impI)
  assume "(\<lambda>s s'. \<exists>fl. inference_step secret1 pegs1 s fl s')\<^sup>*\<^sup>* st1 st1'"
  then show "length (remaining st1') \<le> length (remaining st1)"
    by (induction rule: rtranclp_induct) (auto dest: inference_step_remaining)
next
  assume "(\<lambda>s s'. \<exists>fl. cnf_step secret2 s fl s')\<^sup>*\<^sup>* st2 st2'"
  then show "length (remaining st2') \<le> length (remaining st2)"
    by (induction rule: rtranclp_induct) (auto dest: cnf_step_remaining)
next
  assume "(\<lambda>s s'. \<exists>fl. minimax_step secret3 pegs3 all_codes s fl s')\<^sup>*\<^sup>* st3 st3'"
  then show "length (remaining st3') \<le> length (remaining st3)"
    by (induction rule: rtranclp_induct) (auto simp: minimax_step_def dest: minimax_turn_remaining)
qed

theorem remaining_never_grows_witness:
  "(\<exists>s'. (\<lambda>s s'. \<exists>fl. inference_step [''c''] 1 s fl s')\<^sup>*\<^sup>* sample_state s'
        \<and> remaining s' = [[''c'']]
        \<and> length (remaining s') \<le> length (remaining sample_state))
   \<and> (\<exists>s'. (\<lambda>s s'. \<exists>fl. cnf_step [''blue'', ''blue'', ''blue'', ''blue'', ''blue''] s fl s')\<^sup>*\<^sup>* sample_cnf_state s'
        \<and> remaining s' = [[''blue'', ''blue'', ''blue'', ''blue'', ''blue'']]
        \<and> length (remaining s') \<le> length (remaining sample_cnf_state))
   \<and> (\<exists>s'. (\<lambda>s s'. \<exists>fl. minimax_step [''c''] 1 [[''a''], [''b''], [''c'']] s fl s')\<^sup>*\<^sup>* sample_run_state s'
        \<and> remaining s' = [[''b''], [''c'']]
        \<and> length (remaining s') \<le> length (remaining sample_run_state))"
proof -
  let ?blue = "[''blue'', ''blue'', ''blue'', ''blue'', ''blue'']"
  let ?all = "[[''a''], [''b''], [''c'']]"
  obtain s1 where s1: "inference_turn [''c''] 1 sample_state = Inr (Next, s1)" "remaining s1 = [[''c'']]"
    using sample_inference_turn by blast
  obtain s2 where s2: "cnf_turn ?blue sample_cnf_state = Inr (Next, s2)" "remaining s2 = [?blue]"
    using sample_cnf_turn by blast
  obtain s3 where s3: "minimax_turn [''c''] 1 ?all sample_run_state = Inr (Next, s3)"
    "remaining s3 = [[''b''], [''c'']]"
    using sample_minimax_turn by blast
  have r1: "(\<lambda>s s'. \<exists>fl. inference_step [''c''] 1 s fl s')\<^sup>*\<^sup>* sample_state s1"
    using s1 by (intro r_into_rtranclp) (auto simp: inference_step_def)
  have "cnf_explore_turn ?blue sample_cnf_state = Inr (Next, s2)"
    using s2 by (simp add: cnf_explore_turn_def sample_cnf_state_def)
  then have r2: "(\<lambda>s s'. \<exists>fl. cnf_step ?blue s fl s')\<^sup>*\<^sup>* sample_cnf_state s2"
    by (intro r_into_rtranclp) (auto simp: cnf_step_def)
  have r3: "(\<lambda>s s'. \<exists>fl. minimax_step [''c''] 1 ?all s fl s')\<^sup>*\<^sup>* sample_run_state s3"
    using s3 by (intro r_into_rtranclp) (auto simp: minimax_step_def)
  note inst = remaining_never_grows[of "[''c'']" 1 sample_state s1 ?blue sample_cnf_state s2
      "[''c'']" 1 ?all sample_run_state s3]
  show ?thesis
    using inst r1 r2 r3 s1(2) s2(2) s3(2) by blast
qed

section \<open>Concrete runs\<close>

lemmas feedback_eval = get_feedback_def count_def Let_def announce_def

lemma run_inference_foreign_secret:
  "\<exists>r. logical_inference_run [''x''] 1 [''a'', ''b''] 0 (\<lambda>_. 0) = Some (Inr r)
   \<and> guess_history r = [[''a''], [''b'']] \<and> remaining r = [] \<and> last (printed r) = NoCandidatesMsg"
  by (simp add: logical_inference_run_def itertools_product_def initial_state_def
      inference_loop.simps inference_turn_def best_candidate_def candidate_score_def feedback_eval)

lemma run_inference_secret_b:
  "\<exists>r. logical_inference_run [''b''] 1 [''a'', ''b''] 0 (\<lambda>_. 0) = Some (Inr r)
   \<and> guess_history r = [[''a''], [''b'']] \<and> last (printed r) = FoundMsg 2"
  by (simp add: logical_inference_run_def itertools_product_def initial_state_def
      inference_loop.simps inference_turn_def best_candidate_def candidate_score_def feedback_eval)

lemma run_minimax_red_red:
  "\<exists>r. mastermind_minimax_run [''red'', ''red''] 2 [''red'', ''blue''] = Some (Inr r)
   \<and> guess_history r = [initial_guess] \<and> turn r = 1 \<and> last (printed r) = FoundMsg 1"
  by (simp add: mastermind_minimax_run_def itertools_product_def numeral_2_eq_2 opening_guess_def
      minimax_initial_state_def minimax_loop.simps minimax_turn_def initial_guess_def feedback_eval)

lemma run_minimax_one_code:
  "\<exists>r. mastermind_minimax_run [''a''] 1 [''a''] = Some (Inr r)
   \<and> guess_history r = [initial_guess, [''a'']] \<and> turn r = 2 \<and> last (printed r) = FoundMsg 2"
  by (simp add: mastermind_minimax_run_def itertools_product_def opening_guess_def
      minimax_initial_state_def minimax_loop.simps minimax_turn_def initial_guess_def feedback_eval
      minimax_guess_def worst_partition_def partition_sizes_def dict_get_def)

lemma solver_draw_0:
  "logical_inference_solver [''b''] 1 [''a'', ''b''] 1 (\<lambda>_. 0) = Some (Inr [[''a''], [''b'']])"
  by (simp add: logical_inference_solver_def logical_inference_run_def itertools_product_def
      initial_state_def explore_turn_def random_choice_def
      inference_loop.simps inference_turn_def best_candidate_def candidate_score_def feedback_eval)

lemma solver_draw_1:
  "logical_inference_solver [''b''] 1 [''a'', ''b''] 1 (\<lambda>_. 1) = Some (Inr [[''b'']])"
  by (simp add: logical_inference_solver_def logical_inference_run_def itertools_product_def
      initial_state_def explore_turn_def random_choice_def
      inference_loop.simps inference_turn_def best_candidate_def candidate_score_def feedback_eval)

text \<open>
  C2 (evaluation at the failing inputs). With two pegs over the colours red and blue and
  the secret \<open>(red, red)\<close>, a code of that space, the minimax solver reports success in
  turn 1 and returns the single guess \<open>(red, red, yellow, green, blue)\<close>, which is not the
  secret. With one peg over the single colour \<open>a\<close> it solves the secret \<open>(a)\<close> in two
  turns, one more than the size of the code space.
\<close>

theorem minimax_fixed_opening_runs:
  "[''red'', ''red''] \<in> set (product_repeat [''red'', ''blue''] 2)
   \<and> mastermind_minimax_solver [''red'', ''red''] 2 [''red'', ''blue''] = Some (Inr [initial_guess])
   \<and> initial_guess \<noteq> [''red'', ''red'']
   \<and> (\<exists>r. mastermind_minimax_run [''red'', ''red''] 2 [''red'', ''blue''] = Some (Inr r)
          \<and> last (printed r) = FoundMsg 1)
   \<and> [''a''] \<in> set (product_repeat [''a''] 1)
   \<and> (\<exists>r. mastermind_minimax_run [''a''] 1 [''a''] = Some (Inr r)
          \<and> last (printed r) = FoundMsg 2 \<and> last (guess_history r) = [''a'']
          \<and> turn r = 2 \<and> card (set [''a'']) ^ 1 < turn r)"
proof -
  obtain r1 where r1: "mastermind_minimax_run [''red'', ''red''] 2 [''red'', ''blue''] = Some (Inr r1)"
    "guess_history r1 = [initial_guess]" "last (printed r1) = FoundMsg 1"
    using run_minimax_red_red by blast
  obtain r2 where r2: "mastermind_minimax_run [''a''] 1 [''a''] = Some (Inr r2)"
    "guess_history r2 = [initial_guess, [''a'']]" "turn r2 = 2" "last (printed r2) = FoundMsg 2"
    using run_minimax_one_code by blast
  have "[''red'', ''red''] \<in> set (product_repeat [''red'', ''blue''] 2)"
    by (simp add: numeral_2_eq_2)
  moreover have "mastermind_minimax_solver [''red'', ''red''] 2 [''red'', ''blue''] = Some (Inr [initial_guess])"
    using r1 by (simp add: mastermind_minimax_solver_def)
  moreover have "initial_guess \<noteq> [''red'', ''red'']"
    by (simp add: initial_guess_def)
  moreover have "[''a''] \<in> set (product_repeat [''a''] 1)"
    by simp
  ultimately show ?thesis
    using r1 r2 by auto
qed

text \<open>
  C7 (the claim fails). From a secret outside the code space the scored-inference solver
  runs out of candidates, prints the line that says so, and returns the list of its two
  guesses; for the secret \<open>(b)\<close> it succeeds and returns the same list. The value
  returned carries nothing that tells the two outcomes apart.
\<close>

theorem exhausted_run_returns_like_solved:
  "logical_inference_solver [''x''] 1 [''a'', ''b''] 0 (\<lambda>_. 0) = Some (Inr [[''a''], [''b'']])
   \<and> logical_inference_solver [''b''] 1 [''a'', ''b''] 0 (\<lambda>_. 0) = Some (Inr [[''a''], [''b'']])
   \<and> (\<exists>r. logical_inference_run [''x''] 1 [''a'', ''b''] 0 (\<lambda>_. 0) = Some (Inr r)
          \<and> remaining r = [] \<and> last (printed r) = NoCandidatesMsg)
   \<and> (\<exists>r. logical_inference_run [''b''] 1 [''a'', ''b''] 0 (\<lambda>_. 0) = Some (Inr r)
          \<and> last (printed r) = FoundMsg 2)"
  using run_inference_foreign_secret run_inference_secret_b
  by (auto simp: logical_inference_solver_def)

section \<open>How exhaustion is reported\<close>

lemma inference_turn_exhausted:
  assumes "inference_turn secret pegs st = Inr (Exhausted, st')"
  shows "remaining st' = [] \<and> last (printed st') = NoCandidatesMsg"
  using assms by (auto simp: inference_turn_def Let_def split: sum.splits option.splits if_splits)

lemma explore_turn_not_exhausted: "explore_turn secret pegs st \<noteq> Inr (Exhausted, st')"
  by (auto simp: explore_turn_def Let_def split: sum.splits if_splits)

lemma cnf_turn_not_exhausted: "cnf_turn secret st \<noteq> Inr (Exhausted, st')"
  by (auto simp: cnf_turn_def Let_def split: sum.splits if_splits)

lemma cnf_step_exhausted:
  assumes "cnf_step secret st Exhausted st'"
  shows "remaining st' = [] \<and> last (printed st') = NoCandidatesMsg"
  using assms cnf_turn_not_exhausted
  by (auto simp: cnf_step_def cnf_explore_turn_def cnf_inference_turn_def
      split: if_splits sum.splits flow.splits)

lemma minimax_turn_exhausted:
  assumes "minimax_turn secret pegs all_codes st = Inr (Exhausted, st')"
  shows "remaining st' = [] \<and> last (printed st') = NoCandidatesMsg"
  using assms by (auto simp: minimax_turn_def Let_def split: sum.splits option.splits if_splits)

subsection \<open>A turn that empties the candidate list\<close>

text \<open>Phase 2 of the scored-inference solver: unless the guess of the turn was answered
  with \<open>(pegs, 0)\<close>, an empty list after the filter ends the turn in the branch
  \<open>not remaining\<close>, and the loop returns the state the turn left.\<close>

lemma inference_turn_emptied:
  assumes t: "inference_turn secret pegs st = Inr (fl, st')"
    and e: "remaining st' = []"
    and nf: "get_feedback secret (last (guess_history st')) \<noteq> (pegs, 0)"
  shows "fl = Exhausted \<and> last (printed st') = NoCandidatesMsg
         \<and> inference_loop secret pegs st = Some (Inr st')"
proof -
  from inference_turn_remaining[OF t] obtain guess where g: "guess \<in> set (remaining st)"
    and h: "guess_history st' = guess_history st @ [guess]"
    and f: "fl = Found \<and> get_feedback secret guess = (pegs, 0)
            \<or> fl = Exhausted \<and> get_feedback secret guess \<noteq> (pegs, 0) \<and> remaining st' = []
            \<or> fl = Next \<and> get_feedback secret guess \<noteq> (pegs, 0) \<and> remaining st' \<noteq> []"
    by blast
  from h have "last (guess_history st') = guess" by simp
  with nf e f have fl: "fl = Exhausted" by auto
  from g have ne: "remaining st \<noteq> []" by auto
  have "inference_loop secret pegs st = Some (Inr st')"
    using t fl ne by (subst inference_loop.simps) simp
  with fl inference_turn_exhausted[OF t[unfolded fl]] show ?thesis by simp
qed

text \<open>The common part of the turns of the CNF solver leaves through the success branch
  before any filtering, with the list it chose the guess from.\<close>

lemma cnf_turn_found_remaining:
  assumes "cnf_turn secret st = Inr (Found, st')"
  shows "remaining st' \<noteq> []"
proof -
  from assms obtain guess g' where rc: "random_choice (rng st) (remaining st) = Inr (guess, g')"
    by (auto simp: cnf_turn_def split: sum.splits)
  from random_choice_mem[OF rc] have ne: "remaining st \<noteq> []" by auto
  from assms rc have "remaining st' = remaining st"
    by (auto simp: cnf_turn_def Let_def split: sum.splits if_splits)
  with ne show ?thesis by simp
qed

lemma cnf_inference_turn_emptied:
  assumes t: "cnf_inference_turn secret st = Inr (fl, st')" and e: "remaining st' = []"
  shows "fl = Exhausted \<and> last (printed st') = NoCandidatesMsg
         \<and> cnf_inference_loop secret st = Some (Inr st')"
proof -
  have fl: "fl = Exhausted"
  proof (cases fl)
    case Next
    with t e show ?thesis
      by (auto simp: cnf_inference_turn_def split: sum.splits flow.splits if_splits)
  next
    case Found
    with t have "cnf_turn secret st = Inr (Found, st')"
      by (auto simp: cnf_inference_turn_def split: sum.splits flow.splits if_splits)
    from cnf_turn_found_remaining[OF this] e show ?thesis by simp
  next
    case Exhausted
    then show ?thesis .
  qed
  have step: "cnf_step secret st Exhausted st'"
    using t fl by (simp add: cnf_step_def)
  have ne: "remaining st \<noteq> []"
  proof
    assume "remaining st = []"
    then have "cnf_turn secret st = Inl IndexError"
      by (simp add: cnf_turn_def random_choice_def)
    with t show False by (simp add: cnf_inference_turn_def)
  qed
  have "cnf_inference_loop secret st = Some (Inr st')"
    using t fl ne by (subst cnf_inference_loop.simps) simp
  with fl cnf_step_exhausted[OF step] show ?thesis by simp
qed

lemma cnf_explore_turn_empty:
  assumes "remaining st = []"
  shows "cnf_explore_turn secret st = Inr (Exhausted, st\<lparr>printed := printed st @ [NoCandidatesMsg]\<rparr>)"
  using assms by (simp add: cnf_explore_turn_def)

text \<open>The minimax solver leaves through the success branch before it touches the list.\<close>

lemma minimax_turn_found_remaining:
  assumes "minimax_turn secret pegs all_codes st = Inr (Found, st')"
  shows "remaining st' = remaining st"
  using assms by (auto simp: minimax_turn_def Let_def split: sum.splits option.splits if_splits)

lemma minimax_turn_next_remaining:
  assumes "minimax_turn secret pegs all_codes st = Inr (Next, st')"
  shows "remaining st' \<noteq> []"
  using assms by (auto simp: minimax_turn_def Let_def split: sum.splits option.splits if_splits)

lemma minimax_turn_emptied:
  assumes t: "minimax_turn secret pegs all_codes st = Inr (fl, st')"
    and ne: "remaining st \<noteq> []" and e: "remaining st' = []"
  shows "fl = Exhausted \<and> last (printed st') = NoCandidatesMsg
         \<and> minimax_loop secret pegs all_codes st = Some (Inr st')"
proof -
  have fl: "fl = Exhausted"
  proof (cases fl)
    case Next
    with t minimax_turn_next_remaining[of secret pegs all_codes st st'] e show ?thesis by simp
  next
    case Found
    with t minimax_turn_found_remaining[of secret pegs all_codes st st'] ne e show ?thesis by simp
  next
    case Exhausted
    then show ?thesis .
  qed
  have "minimax_loop secret pegs all_codes st = Some (Inr st')"
    using t fl ne by (subst minimax_loop.simps) simp
  with fl minimax_turn_exhausted[OF t[unfolded fl]] show ?thesis by simp
qed

subsection \<open>Turns on the sample states\<close>

lemma narrowed_inference_turn:
  "\<exists>fl s'. inference_turn [''c''] 1 narrowed_state = Inr (fl, s') \<and> remaining s' = []
     \<and> guess_history s' = [[''a''], [''b'']]"
  by (simp add: narrowed_state_def inference_turn_def best_candidate_def candidate_score_def
      get_feedback_def count_def Let_def announce_def)

lemma narrowed_cnf_turn:
  "\<exists>fl s'. cnf_inference_turn [''red'', ''blue'', ''blue'', ''blue'', ''blue''] sample_cnf_state = Inr (fl, s')
     \<and> remaining s' = []"
  by (simp add: sample_cnf_state_def cnf_inference_turn_def cnf_turn_def random_choice_def get_feedback_def count_def Let_def
       derive_simple_cnf_constraints_def PEGS_def announce_def)

lemma narrowed_minimax_turn:
  "\<exists>fl s'. minimax_turn [''x''] 1 [[''a''], [''b'']] narrowed_run_state = Inr (fl, s') \<and> remaining s' = []"
  by (simp add: narrowed_run_state_def minimax_turn_def minimax_guess_def worst_partition_def
      partition_sizes_def dict_get_def get_feedback_def count_def Let_def announce_def)

text \<open>
  C7 (as amended). When a turn of the second phase of \<open>logical_inference_solver\<close> or of
  \<open>logical_inference_solver_CNF\<close>, or a turn of \<open>mastermind_minimax_solver\<close>, leaves the
  candidate list empty without having found the secret, the turn ends in the branch
  \<open>not remaining\<close>: its last printed line says that no candidate remains, and the loop
  returns the state the turn left. A pass of the exploratory loop of the CNF solver that
  starts with an empty list prints that line and returns. What each solver returns to its
  caller is the guess history of that state and nothing else.
\<close>

theorem emptied_candidates_are_printed:
  "(inference_turn secret1 pegs1 st1 = Inr (fl1, st1') \<and> remaining st1' = []
      \<and> get_feedback secret1 (last (guess_history st1')) \<noteq> (pegs1, 0)
    \<longrightarrow> fl1 = Exhausted \<and> last (printed st1') = NoCandidatesMsg
        \<and> inference_loop secret1 pegs1 st1 = Some (Inr st1'))
   \<and> (cnf_inference_turn secret2 st2 = Inr (fl2, st2') \<and> remaining st2' = []
    \<longrightarrow> fl2 = Exhausted \<and> last (printed st2') = NoCandidatesMsg
        \<and> cnf_inference_loop secret2 st2 = Some (Inr st2'))
   \<and> (remaining st4 = []
    \<longrightarrow> cnf_explore_turn secret2 st4 = Inr (Exhausted, st4\<lparr>printed := printed st4 @ [NoCandidatesMsg]\<rparr>))
   \<and> (minimax_turn secret3 pegs3 all_codes st3 = Inr (fl3, st3') \<and> remaining st3 \<noteq> []
      \<and> remaining st3' = []
    \<longrightarrow> fl3 = Exhausted \<and> last (printed st3') = NoCandidatesMsg
        \<and> minimax_loop secret3 pegs3 all_codes st3 = Some (Inr st3'))
   \<and> logical_inference_solver secret1 pegs1 colors_list n1 g1
       = map_option (map_sum id guess_history) (logical_inference_run secret1 pegs1 colors_list n1 g1)
   \<and> logical_inference_solver_CNF secret2 n2 g2
       = map_option (map_sum id guess_history) (logical_inference_run_CNF secret2 n2 g2)
   \<and> mastermind_minimax_solver secret3 pegs3 colors_list3
       = map_option (map_sum id guess_history) (mastermind_minimax_run secret3 pegs3 colors_list3)"
  using inference_turn_emptied[of secret1 pegs1 st1 fl1 st1']
    cnf_inference_turn_emptied[of secret2 st2 fl2 st2']
    cnf_explore_turn_empty[of st4 secret2]
    minimax_turn_emptied[of secret3 pegs3 all_codes st3 fl3 st3']
  by (simp add: logical_inference_solver_def logical_inference_solver_CNF_def
      mastermind_minimax_solver_def)

theorem emptied_candidates_are_printed_witness:
  "(\<exists>fl s'. inference_turn [''c''] 1 narrowed_state = Inr (fl, s') \<and> remaining s' = []
        \<and> get_feedback [''c''] (last (guess_history s')) \<noteq> (1, 0)
        \<and> fl = Exhausted \<and> last (printed s') = NoCandidatesMsg
        \<and> inference_loop [''c''] 1 narrowed_state = Some (Inr s'))
   \<and> (\<exists>fl s'. cnf_inference_turn [''red'', ''blue'', ''blue'', ''blue'', ''blue''] sample_cnf_state = Inr (fl, s')
        \<and> remaining s' = []
        \<and> fl = Exhausted \<and> last (printed s') = NoCandidatesMsg
        \<and> cnf_inference_loop [''red'', ''blue'', ''blue'', ''blue'', ''blue''] sample_cnf_state = Some (Inr s'))
   \<and> remaining (sample_cnf_state\<lparr>remaining := []\<rparr>) = []
   \<and> cnf_explore_turn [''red'', ''blue'', ''blue'', ''blue'', ''blue''] (sample_cnf_state\<lparr>remaining := []\<rparr>)
       = Inr (Exhausted, sample_cnf_state\<lparr>remaining := [], printed := [NoCandidatesMsg]\<rparr>)
   \<and> remaining narrowed_run_state \<noteq> []
   \<and> (\<exists>fl s'. minimax_turn [''x''] 1 [[''a''], [''b'']] narrowed_run_state = Inr (fl, s')
        \<and> remaining s' = []
        \<and> fl = Exhausted \<and> last (printed s') = NoCandidatesMsg
        \<and> minimax_loop [''x''] 1 [[''a''], [''b'']] narrowed_run_state = Some (Inr s'))"
proof -
  let ?rb = "[''red'', ''blue'', ''blue'', ''blue'', ''blue'']"
  let ?empty = "sample_cnf_state\<lparr>remaining := []\<rparr>"
  obtain f1 s1 where s1: "inference_turn [''c''] 1 narrowed_state = Inr (f1, s1)" "remaining s1 = []"
    "guess_history s1 = [[''a''], [''b'']]"
    using narrowed_inference_turn by blast
  have n1: "get_feedback [''c''] (last (guess_history s1)) \<noteq> (1, 0)"
    using s1(3) by (simp add: get_feedback_def count_def)
  obtain f2 s2 where s2: "cnf_inference_turn ?rb sample_cnf_state = Inr (f2, s2)" "remaining s2 = []"
    using narrowed_cnf_turn by blast
  have e4: "remaining ?empty = []" by simp
  have p4: "printed ?empty @ [NoCandidatesMsg] = [NoCandidatesMsg]"
    by (simp add: sample_cnf_state_def)
  obtain f3 s3 where s3: "minimax_turn [''x''] 1 [[''a''], [''b'']] narrowed_run_state = Inr (f3, s3)"
    "remaining s3 = []"
    using narrowed_minimax_turn by blast
  have n3: "remaining narrowed_run_state \<noteq> []" by (simp add: narrowed_run_state_def)
  note inst = emptied_candidates_are_printed[where ?secret1.0 = "[''c'']" and ?pegs1.0 = 1
      and ?st1.0 = narrowed_state and ?fl1.0 = f1 and ?st1' = s1
      and ?secret2.0 = ?rb and ?st2.0 = sample_cnf_state and ?fl2.0 = f2 and ?st2' = s2
      and ?st4.0 = ?empty
      and ?secret3.0 = "[''x'']" and ?pegs3.0 = 1 and all_codes = "[[''a''], [''b'']]"
      and ?st3.0 = narrowed_run_state and ?fl3.0 = f3 and ?st3' = s3]
  from inst s1 n1 have c1: "f1 = Exhausted \<and> last (printed s1) = NoCandidatesMsg
        \<and> inference_loop [''c''] 1 narrowed_state = Some (Inr s1)" by blast
  from inst s2 have c2: "f2 = Exhausted \<and> last (printed s2) = NoCandidatesMsg
        \<and> cnf_inference_loop ?rb sample_cnf_state = Some (Inr s2)" by blast
  from inst e4 have "cnf_explore_turn ?rb ?empty = Inr (Exhausted, ?empty\<lparr>printed := printed ?empty @ [NoCandidatesMsg]\<rparr>)"
    by blast
  then have c4: "cnf_explore_turn ?rb ?empty = Inr (Exhausted, sample_cnf_state\<lparr>remaining := [], printed := [NoCandidatesMsg]\<rparr>)"
    using p4 by simp
  from inst s3 n3 have c3: "f3 = Exhausted \<and> last (printed s3) = NoCandidatesMsg
        \<and> minimax_loop [''x''] 1 [[''a''], [''b'']] narrowed_run_state = Some (Inr s3)" by blast
  from s1 n1 c1 s2 c2 e4 c4 n3 s3 c3 show ?thesis by blast
qed

subsection \<open>The exploratory phase of the scored-inference solver\<close>

text \<open>The loop of phase 1 of \<open>constraint.py\<close> does not test its list: a run whose second
  exploratory turn empties it returns without a further line, and a third exploratory
  turn calls \<open>random.choice\<close> on the empty list.\<close>

lemma exploration_empties_silently:
  "\<exists>r. logical_inference_run [''x''] 1 [''a'', ''b''] 2 (\<lambda>_. 0) = Some (Inr r)
     \<and> remaining r = [] \<and> guess_history r = [[''a''], [''b'']]
     \<and> NoCandidatesMsg \<notin> set (printed r)"
  by (simp add: logical_inference_run_def itertools_product_def initial_state_def numeral_2_eq_2
      explore_turn_def random_choice_def inference_loop.simps feedback_eval)

lemma exploration_raises_on_empty:
  "logical_inference_run [''x''] 1 [''a'', ''b''] 3 (\<lambda>_. 0) = Some (Inl IndexError)"
  by (simp add: logical_inference_run_def itertools_product_def initial_state_def numeral_3_eq_3
      explore_turn_def random_choice_def feedback_eval)

section \<open>Literals as text\<close>

lemmas literal_eval = parse_literal_def py_int_def py_strip_def strip_where_def is_space_def
  py_strip_chars_def unsigned_int_def is_digit_def digit_value_def py_index_def

lemma less_5_cases: "i < (5::nat) \<Longrightarrow> i = 0 \<or> i = 1 \<or> i = 2 \<or> i = 3 \<or> i = 4"
  by arith

lemma literal_text_tilde: "take 1 (literal_text i c) = ''~''"
  by (simp add: literal_text_def)

text \<open>The literals the solver writes, for a position below \<open>PEGS\<close> and a colour of
  \<open>COLORS\<close>, are read back as written.\<close>

lemma parse_literal_text:
  assumes "i < 5" and "c \<in> set COLORS"
  shows "parse_literal (drop 1 (literal_text i c)) = Some (int i + 1, c)"
proof -
  from assms(2) have c: "c = ''red'' \<or> c = ''yellow'' \<or> c = ''green'' \<or> c = ''blue'' \<or> c = ''pink'' \<or> c = ''brown''"
    by (simp add: COLORS_def)
  from less_5_cases[OF assms(1)] c show ?thesis
    by (elim disjE) (simp_all add: literal_text_def digit_char_def literal_eval)
qed

lemma negative_clauses_eq:
  "negative_clauses guess ps =
     (if \<forall>i\<in>set ps. i < length guess then Inr (map (\<lambda>i. [literal_text i (guess ! i)]) ps)
      else Inl IndexError)"
  by (induction ps) auto

lemma derive_eq:
  "derive_simple_cnf_constraints guess (black, white) =
     (if black = 0
      then (if 5 \<le> length guess then Inr (map (\<lambda>i. [literal_text i (guess ! i)]) [0..<5])
            else Inl IndexError)
      else Inr [])"
proof -
  have "(\<forall>i\<in>set [0..<5]. i < length guess) = (5 \<le> length guess)"
    by auto
  then show ?thesis
    by (simp add: derive_simple_cnf_constraints_def PEGS_def negative_clauses_eq)
qed

text \<open>
  C8 (the claim fails). The clauses derived from a guess hold strings such as
  \<open>~Color(1, 'red')\<close>, and a clause with a literal that cannot be parsed is evaluated
  without any failure: the literal is passed over and the next one decides.
\<close>

theorem malformed_literal_is_passed_over:
  "derive_simple_cnf_constraints [''red'', ''blue'', ''red'', ''blue'', ''red''] (0, 2)
     = Inr [[''~Color(1, 'red')''], [''~Color(2, 'blue')''], [''~Color(3, 'red')''],
            [''~Color(4, 'blue')''], [''~Color(5, 'red')'']]
   \<and> parse_literal ''garbage'' = None
   \<and> code_satisfies_cnf [''blue'', ''blue'', ''blue'', ''blue'', ''blue'']
        [[''garbage'', ''Color(1, 'blue')'']] = Inr True
   \<and> code_satisfies_cnf [''blue'', ''blue'', ''blue'', ''blue'', ''blue''] [[''garbage'']] = Inr False"
  by (simp add: derive_simple_cnf_constraints_def PEGS_def upt_conv_Cons literal_text_def
      digit_char_def literal_eval)

text \<open>
  C8 (as amended). A literal is a string, parsed each time a clause is evaluated; when
  its parsing fails, the evaluation of the clause goes on as if the literal were not
  there. \<open>derive_simple_cnf_constraints\<close> writes, for a feedback without black pegs, one
  clause with the single string \<open>~Color(i+1, 'guess[i]')\<close> for each of the five positions
  (and raises \<open>IndexError\<close> on a shorter guess), and no clause otherwise.
\<close>

theorem unparsable_literal_skipped:
  "(parse_literal (if take 1 l = ''~'' then drop 1 l else l) = None
      \<longrightarrow> clause_sat code (l # rest) = clause_sat code rest)
   \<and> derive_simple_cnf_constraints guess (black, white) =
       (if black = 0
        then (if 5 \<le> length guess then Inr (map (\<lambda>i. [literal_text i (guess ! i)]) [0..<5])
              else Inl IndexError)
        else Inr [])"
  by (simp add: derive_eq)

theorem unparsable_literal_skipped_witness:
  "parse_literal (if take 1 ''garbage'' = ''~'' then drop 1 ''garbage'' else ''garbage'') = None
   \<and> clause_sat [''blue'', ''blue'', ''blue'', ''blue'', ''blue''] [''garbage'', ''Color(1, 'blue')'']
       = clause_sat [''blue'', ''blue'', ''blue'', ''blue'', ''blue''] [''Color(1, 'blue')'']
   \<and> clause_sat [''blue'', ''blue'', ''blue'', ''blue'', ''blue''] [''Color(1, 'blue')''] = Inr True"
proof -
  have h: "parse_literal (if take 1 ''garbage'' = ''~'' then drop 1 ''garbage'' else ''garbage'') = None"
    by (simp add: literal_eval)
  have e: "clause_sat [''blue'', ''blue'', ''blue'', ''blue'', ''blue''] [''Color(1, 'blue')''] = Inr True"
    by (simp add: literal_eval)
  from unparsable_literal_skipped[of "''garbage''" "[''blue'', ''blue'', ''blue'', ''blue'', ''blue'']"
      "[''Color(1, 'blue')'']"] h e
  show ?thesis by blast
qed

section \<open>Where the random draws enter\<close>

lemma inference_turn_rng:
  assumes "remaining st \<noteq> []"
  shows "inference_turn secret pegs (st\<lparr>rng := g\<rparr>)
       = map_sum id (\<lambda>(fl, s). (fl, s\<lparr>rng := g\<rparr>)) (inference_turn secret pegs st)"
proof -
  from best_candidate_Some[OF assms, of "premises_list st"] obtain c where
    "fst (best_candidate (premises_list st) (remaining st)) = Some c" by blast
  then show ?thesis
    by (simp add: inference_turn_def Let_def)
qed

lemma inference_loop_rng_Some:
  "inference_loop secret pegs st = Some res \<Longrightarrow>
   inference_loop secret pegs (st\<lparr>rng := g\<rparr>) = Some (map_sum id (\<lambda>s. s\<lparr>rng := g\<rparr>) res)"
proof (induction arbitrary: g rule: inference_loop.raw_induct[rotated 1, consumes 1])
  case (1 loop secret pegs st res)
  show ?case
  proof (cases "remaining st = []")
    case True
    with 1(2) show ?thesis by (auto simp: inference_loop.simps)
  next
    case False
    note turn = inference_turn_rng[OF False, where secret = secret and pegs = pegs and g = g]
    show ?thesis
    proof (cases "inference_turn secret pegs st")
      case (Inl e)
      with 1(2) False turn show ?thesis
        by (subst inference_loop.simps) (auto simp: id_def)
    next
      case (Inr p)
      obtain fl st' where p: "p = (fl, st')" by (cases p)
      show ?thesis
      proof (cases fl)
        case Next
        with 1(2) False Inr p have "loop secret pegs st' = Some res" by simp
        from 1(1)[OF this, of g] Inr p Next False turn show ?thesis
          by (subst inference_loop.simps) (auto simp: id_def)
      next
        case Found
        with 1(2) False Inr p turn show ?thesis
          by (subst inference_loop.simps) (auto simp: id_def)
      next
        case Exhausted
        with 1(2) False Inr p turn show ?thesis
          by (subst inference_loop.simps) (auto simp: id_def)
      qed
    qed
  qed
qed

lemma inference_loop_rng_history:
  "map_option (map_sum id guess_history) (inference_loop secret pegs (st\<lparr>rng := g\<rparr>))
   = map_option (map_sum id guess_history) (inference_loop secret pegs st)"
proof (cases "inference_loop secret pegs st")
  case None
  have "inference_loop secret pegs (st\<lparr>rng := g\<rparr>) = None"
  proof (rule ccontr)
    assume "inference_loop secret pegs (st\<lparr>rng := g\<rparr>) \<noteq> None"
    then obtain res where "inference_loop secret pegs (st\<lparr>rng := g\<rparr>) = Some res" by auto
    from inference_loop_rng_Some[OF this, where g = "rng st"] None show False by simp
  qed
  with None show ?thesis by simp
next
  case (Some res)
  from inference_loop_rng_Some[OF Some, where g = g] Some show ?thesis
    by (cases res) simp_all
qed

lemma explore_turn_rng:
  assumes "g1 0 = g2 0"
  shows "(\<exists>e. explore_turn secret pegs (st\<lparr>rng := g1\<rparr>) = Inl e \<and> explore_turn secret pegs (st\<lparr>rng := g2\<rparr>) = Inl e)
       \<or> (\<exists>fl s. explore_turn secret pegs (st\<lparr>rng := g1\<rparr>) = Inr (fl, s\<lparr>rng := \<lambda>k. g1 (Suc k)\<rparr>)
                \<and> explore_turn secret pegs (st\<lparr>rng := g2\<rparr>) = Inr (fl, s\<lparr>rng := \<lambda>k. g2 (Suc k)\<rparr>))"
proof (cases "remaining st = []")
  case True
  then show ?thesis by (simp add: explore_turn_def random_choice_def)
next
  case False
  let ?guess = "remaining st ! (g1 0 mod length (remaining st))"
  let ?fb = "get_feedback secret ?guess"
  let ?s = "st\<lparr>turn := turn st + 1,
                       guess_history := guess_history st @ [?guess],
                       printed := printed st @ announce (turn st + 1) ?guess ?fb
                          @ (if ?fb = (pegs, 0) then [FoundMsg (turn st + 1)] else []),
                       premises_list := premises_list st @ [(?guess, ?fb)],
                       remaining := filter (\<lambda>code. get_feedback code ?guess = ?fb) (remaining st)\<rparr>"
  have "explore_turn secret pegs (st\<lparr>rng := g\<rparr>)
      = Inr (if ?fb = (pegs, 0) then Found else Next, ?s\<lparr>rng := \<lambda>k. g (Suc k)\<rparr>)"
    if "g 0 = g1 0" for g
    using that False by (simp add: explore_turn_def random_choice_def Let_def)
  from this[of g1] this[of g2] assms show ?thesis by auto
qed

lemma random_exploration_rng:
  assumes "\<forall>k<n. g1 k = g2 k"
  shows "(\<exists>e. random_exploration secret pegs n (st\<lparr>rng := g1\<rparr>) = Inl e
             \<and> random_exploration secret pegs n (st\<lparr>rng := g2\<rparr>) = Inl e)
       \<or> (\<exists>fl s h1 h2. random_exploration secret pegs n (st\<lparr>rng := g1\<rparr>) = Inr (fl, s\<lparr>rng := h1\<rparr>)
                \<and> random_exploration secret pegs n (st\<lparr>rng := g2\<rparr>) = Inr (fl, s\<lparr>rng := h2\<rparr>))"
  using assms
proof (induction n arbitrary: st g1 g2)
  case 0
  show ?case by auto
next
  case (Suc n)
  then have g0: "g1 0 = g2 0" by simp
  from Suc.prems have tl: "\<forall>k<n. (\<lambda>k. g1 (Suc k)) k = (\<lambda>k. g2 (Suc k)) k" by simp
  from explore_turn_rng[where ?g1.0 = g1 and ?g2.0 = g2 and secret = secret and pegs = pegs and st = st, OF g0] show ?case
  proof (elim disjE exE conjE)
    fix e assume "explore_turn secret pegs (st\<lparr>rng := g1\<rparr>) = Inl e"
      "explore_turn secret pegs (st\<lparr>rng := g2\<rparr>) = Inl e"
    then show ?thesis by simp
  next
    fix fl s
    assume t: "explore_turn secret pegs (st\<lparr>rng := g1\<rparr>) = Inr (fl, s\<lparr>rng := \<lambda>k. g1 (Suc k)\<rparr>)"
      "explore_turn secret pegs (st\<lparr>rng := g2\<rparr>) = Inr (fl, s\<lparr>rng := \<lambda>k. g2 (Suc k)\<rparr>)"
    show ?thesis
    proof (cases fl)
      case Next
      with t Suc.IH[OF tl, where st = s] show ?thesis by simp
    next
      case Found
      with t show ?thesis by auto
    next
      case Exhausted
      with t show ?thesis by auto
    qed
  qed
qed

text \<open>
  C9 (the claim fails). Two runs of the scored-inference solver with the same secret and
  the same configuration return different guess sequences when the process-wide generator
  delivers different numbers; the solver has no parameter for a generator or a seed.
\<close>

theorem same_arguments_different_guesses:
  "logical_inference_solver [''b''] 1 [''a'', ''b''] 1 (\<lambda>_. 0) = Some (Inr [[''a''], [''b'']])
   \<and> logical_inference_solver [''b''] 1 [''a'', ''b''] 1 (\<lambda>_. 1) = Some (Inr [[''b'']])
   \<and> logical_inference_solver [''b''] 1 [''a'', ''b''] 1 (\<lambda>_. 0)
       \<noteq> logical_inference_solver [''b''] 1 [''a'', ''b''] 1 (\<lambda>_. 1)"
  using solver_draw_0 solver_draw_1 by simp

text \<open>
  C9 (as amended). The randomness of a run comes from the generator of the module
  \<open>random\<close>, which is no argument of the solver. The guess sequence of
  \<open>logical_inference_solver\<close> is determined by its arguments and the first
  \<open>num_initial_guesses\<close> numbers the generator delivers: two generator states that agree
  on these give the same result.
\<close>

theorem guesses_depend_on_draws:
  assumes "\<forall>k<nat num_initial_guesses. g1 k = g2 k"
  shows "logical_inference_solver secret pegs colors_list num_initial_guesses g1
       = logical_inference_solver secret pegs colors_list num_initial_guesses g2"
proof (cases "itertools_product colors_list pegs")
  case (Inl e)
  then show ?thesis
    by (simp add: logical_inference_solver_def logical_inference_run_def)
next
  case (Inr all_codes)
  let ?st = "initial_state all_codes g1"
  have i1: "initial_state all_codes g1 = ?st\<lparr>rng := g1\<rparr>" and i2: "initial_state all_codes g2 = ?st\<lparr>rng := g2\<rparr>"
    by (simp_all add: initial_state_def)
  from random_exploration_rng[OF assms, where secret = secret and pegs = pegs and st = ?st] show ?thesis
  proof (elim disjE exE conjE)
    fix e assume "random_exploration secret pegs (nat num_initial_guesses) (?st\<lparr>rng := g1\<rparr>) = Inl e"
      "random_exploration secret pegs (nat num_initial_guesses) (?st\<lparr>rng := g2\<rparr>) = Inl e"
    with Inr i1 i2 show ?thesis
      by (simp add: logical_inference_solver_def logical_inference_run_def)
  next
    fix fl s h1 h2
    assume r: "random_exploration secret pegs (nat num_initial_guesses) (?st\<lparr>rng := g1\<rparr>) = Inr (fl, s\<lparr>rng := h1\<rparr>)"
      "random_exploration secret pegs (nat num_initial_guesses) (?st\<lparr>rng := g2\<rparr>) = Inr (fl, s\<lparr>rng := h2\<rparr>)"
    have lp: "map_option (map_sum id guess_history) (inference_loop secret pegs (s\<lparr>rng := h1\<rparr>))
            = map_option (map_sum id guess_history) (inference_loop secret pegs (s\<lparr>rng := h2\<rparr>))"
      using inference_loop_rng_history[where st = s and g = h1 and secret = secret and pegs = pegs]
        inference_loop_rng_history[where st = s and g = h2 and secret = secret and pegs = pegs]
      by simp
    from Inr i1 i2 r lp show ?thesis
      by (cases fl) (simp_all add: logical_inference_solver_def logical_inference_run_def)
  qed
qed

theorem guesses_depend_on_draws_witness:
  "\<not> (\<exists>k<nat 1. (\<lambda>k::nat. if k = 0 then 1 else 0) k \<noteq> (\<lambda>_. 1::nat) k)
   \<and> (\<lambda>k::nat. if k = 0 then 1 else 0) \<noteq> (\<lambda>_. 1::nat)
   \<and> logical_inference_solver [''b''] 1 [''a'', ''b''] 1 (\<lambda>k::nat. if k = 0 then 1 else 0)
       = logical_inference_solver [''b''] 1 [''a'', ''b''] 1 (\<lambda>_. 1)
   \<and> logical_inference_solver [''b''] 1 [''a'', ''b''] 1 (\<lambda>_. 1) = Some (Inr [[''b'']])"
proof -
  have h: "\<forall>k<nat 1. (\<lambda>k::nat. if k = 0 then 1 else 0) k = (\<lambda>_. 1::nat) k"
    by simp
  have d: "(\<lambda>k::nat. if k = 0 then 1 else 0) \<noteq> (\<lambda>_. 1::nat)"
    by (auto simp: fun_eq_iff intro: exI[of _ "Suc 0"])
  from guesses_depend_on_draws[OF h, of "[''b'']" 1 "[''a'', ''b'']"] h d solver_draw_1
  show ?thesis by auto
qed

section \<open>The secret stays a candidate\<close>

lemma set_product_repeat:
  "set (product_repeat pool n) = {xs. length xs = n \<and> set xs \<subseteq> set pool}"
proof (induction n)
  case 0
  then show ?case by auto
next
  case (Suc n)
  show ?case
  proof (intro set_eqI iffI)
    fix xs assume "xs \<in> set (product_repeat pool (Suc n))"
    then obtain x y where "x \<in> set (product_repeat pool n)" "y \<in> set pool" "xs = x @ [y]"
      by auto
    with Suc show "xs \<in> {xs. length xs = Suc n \<and> set xs \<subseteq> set pool}" by auto
  next
    fix xs assume "xs \<in> {xs. length xs = Suc n \<and> set xs \<subseteq> set pool}"
    then have len: "length xs = Suc n" and sub: "set xs \<subseteq> set pool" by auto
    then obtain x y where xs: "xs = x @ [y]" by (cases xs rule: rev_cases) auto
    with len sub Suc have "x \<in> set (product_repeat pool n)" "y \<in> set pool" by auto
    with xs show "xs \<in> set (product_repeat pool (Suc n))" by auto
  qed
qed

lemma length_product_repeat: "length (product_repeat pool n) = length pool ^ n"
  by (induction n) (simp_all add: length_concat comp_def sum_list_triv)

lemma consistent_explore:
  assumes "consistent secret st"
  shows "\<exists>fl st'. explore_turn secret pegs st = Inr (fl, st') \<and> fl \<noteq> Exhausted \<and> consistent secret st'"
proof -
  from assms have ne: "remaining st \<noteq> []" by (auto simp: consistent_def)
  from random_choice_Inr[OF ne, of "rng st"] obtain guess g' where
    rc: "random_choice (rng st) (remaining st) = Inr (guess, g')" by blast
  from assms rc show ?thesis
    by (auto simp: explore_turn_def Let_def consistent_def)
qed

lemma consistent_inference:
  assumes "consistent secret st"
  shows "\<exists>fl st'. inference_turn secret pegs st = Inr (fl, st') \<and> fl \<noteq> Exhausted \<and> consistent secret st'"
proof -
  from assms have ne: "remaining st \<noteq> []" by (auto simp: consistent_def)
  from best_candidate_Some[OF ne, of "premises_list st"] obtain c where
    c: "fst (best_candidate (premises_list st) (remaining st)) = Some c" by blast
  let ?prems = "premises_list st @ [(c, get_feedback secret c)]"
  have keep: "secret \<in> set (filter (\<lambda>code. list_all (\<lambda>(g, f). get_feedback code g = f) ?prems) (remaining st))"
    using assms by (simp add: consistent_def)
  then have "filter (\<lambda>code. list_all (\<lambda>(g, f). get_feedback code g = f) ?prems) (remaining st) \<noteq> []"
    by (metis empty_iff empty_set)
  with keep assms c show ?thesis
    by (auto simp: inference_turn_def Let_def consistent_def)
qed

lemma consistent_step_unique:
  assumes "consistent secret st" and "inference_step secret pegs st fl st'"
  shows "consistent secret st'"
  using assms consistent_explore[OF assms(1), of pegs] consistent_inference[OF assms(1), of pegs]
  by (auto simp: inference_step_def)

lemma consistent_reachable:
  assumes "(\<lambda>s s'. inference_step secret pegs s Next s')\<^sup>*\<^sup>* st0 st" and "consistent secret st0"
  shows "consistent secret st"
  using assms by (induction rule: rtranclp_induct) (auto intro: consistent_step_unique)

lemma py_index_nat: "i < length xs \<Longrightarrow> py_index xs (int i) = Inr (xs ! i)"
  by (simp add: py_index_def)

lemma clause_sat_unit:
  assumes "i < 5" and "c \<in> set COLORS" and "length code = 5"
  shows "clause_sat code (unit_clause (i, c)) = Inr (code ! i \<noteq> c)"
proof -
  have "py_index code (int i + 1 - 1) = Inr (code ! i)"
    using assms py_index_nat[of i code] by simp
  moreover have "take (Suc 0) (literal_text i c) = ''~''"
    using literal_text_tilde[of i c] by simp
  moreover have "parse_literal (drop (Suc 0) (literal_text i c)) = Some (int i + 1, c)"
    using parse_literal_text[OF assms(1,2)] by simp
  ultimately show ?thesis
    by (simp add: unit_clause_def)
qed

lemma code_satisfies_units:
  assumes "length code = 5" and "list_all (\<lambda>(i, c). i < 5 \<and> c \<in> set COLORS) ps"
  shows "code_satisfies_cnf code (map unit_clause ps) = Inr (list_all (\<lambda>(i, c). code ! i \<noteq> c) ps)"
  using assms(2)
proof (induction ps)
  case Nil
  then show ?case by simp
next
  case (Cons p ps)
  obtain i c where p: "p = (i, c)" by (cases p)
  with Cons show ?case
    by (simp add: clause_sat_unit[OF _ _ assms(1)])
qed

lemma filter_cnf_units:
  assumes "\<forall>code\<in>set rem. length code = 5" and "list_all (\<lambda>(i, c). i < 5 \<and> c \<in> set COLORS) ps"
  shows "filter_cnf (map unit_clause ps) rem = Inr (filter (\<lambda>code. list_all (\<lambda>(i, c). code ! i \<noteq> c) ps) rem)"
  using assms(1)
proof (induction rem)
  case Nil
  then show ?case by simp
next
  case (Cons code rem)
  then show ?case
    by (simp add: code_satisfies_units[OF _ assms(2)])
qed

lemma no_black_differs:
  assumes "fst (get_feedback secret guess) = 0" and "length secret = length guess" and "i < length guess"
  shows "secret ! i \<noteq> guess ! i"
proof
  assume eq: "secret ! i = guess ! i"
  have "finite {i. i < length guess \<and> secret ! i = guess ! i}" by simp
  moreover have "card {i. i < length guess \<and> secret ! i = guess ! i} = 0"
    using assms(1) black_card[OF assms(2)] by (simp add: fst_get_feedback)
  ultimately have "{i. i < length guess \<and> secret ! i = guess ! i} = {}" by simp
  with eq assms(3) show False by blast
qed

lemma derive_units:
  assumes "length guess = 5"
  shows "derive_simple_cnf_constraints guess fb =
           Inr (map unit_clause (if fst fb = 0 then map (\<lambda>i. (i, guess ! i)) [0..<5] else []))"
  using assms by (cases fb) (simp add: derive_eq unit_clause_def comp_def)

lemma cnf_consistent_turn:
  assumes "cnf_consistent secret st" and len: "length secret = 5"
  shows "\<exists>fl st'. cnf_turn secret st = Inr (fl, st') \<and> fl \<noteq> Exhausted \<and> cnf_consistent secret st'"
proof -
  from assms(1) have mem: "secret \<in> set (remaining st)"
    and prem: "list_all (\<lambda>(g, f). get_feedback secret g = f) (premises_list st)"
    and sub: "set (remaining st) \<subseteq> set (product_repeat COLORS 5)"
    by (auto simp: cnf_consistent_def consistent_def)
  from assms(1) obtain ps where ps: "cnf_premises st = map unit_clause ps"
    "list_all (\<lambda>(i, c). i < 5 \<and> c \<in> set COLORS \<and> secret ! i \<noteq> c) ps"
    by (auto simp: cnf_consistent_def)
  from mem have ne: "remaining st \<noteq> []" by auto
  from random_choice_Inr[OF ne, of "rng st"] obtain guess g' where
    rc: "random_choice (rng st) (remaining st) = Inr (guess, g')" by blast
  from random_choice_mem[OF rc] sub have gcode: "guess \<in> set (product_repeat COLORS 5)" by blast
  then have glen: "length guess = 5" and gcol: "set guess \<subseteq> set COLORS"
    by (auto simp: set_product_repeat)
  let ?fb = "get_feedback secret guess"
  let ?new = "if fst ?fb = 0 then map (\<lambda>i. (i, guess ! i)) [0..<5] else []"
  let ?prems = "premises_list st @ [(guess, ?fb)]"
  let ?by_prems = "filter (\<lambda>code. list_all (\<lambda>(g, f). get_feedback code g = f) ?prems) (remaining st)"
  have new_ok: "list_all (\<lambda>(i, c). i < 5 \<and> c \<in> set COLORS \<and> secret ! i \<noteq> c) ?new"
  proof (cases "fst ?fb = 0")
    case True
    have "secret ! i \<noteq> guess ! i \<and> guess ! i \<in> set COLORS" if "i < 5" for i
      using no_black_differs[OF True, of i] len glen gcol that by (auto simp: subset_iff)
    with True show ?thesis by (simp add: list_all_iff)
  next
    case False
    then show ?thesis by simp
  qed
  have all_ok: "list_all (\<lambda>(i, c). i < 5 \<and> c \<in> set COLORS \<and> secret ! i \<noteq> c) (ps @ ?new)"
    using ps(2) new_ok by simp
  then have wf: "list_all (\<lambda>(i, c). i < 5 \<and> c \<in> set COLORS) (ps @ ?new)"
    by (auto simp: list_all_iff)
  have sec_ok: "list_all (\<lambda>(i, c). secret ! i \<noteq> c) (ps @ ?new)"
    using all_ok by (auto simp: list_all_iff)
  have lens: "\<forall>code\<in>set ?by_prems. length code = 5"
    using sub by (auto simp: set_product_repeat)
  have fc: "filter_cnf (cnf_premises st @ map unit_clause ?new) ?by_prems
          = Inr (filter (\<lambda>code. list_all (\<lambda>(i, c). code ! i \<noteq> c) (ps @ ?new)) ?by_prems)"
    using filter_cnf_units[OF lens wf] by (simp add: ps(1))
  have keep: "secret \<in> set (filter (\<lambda>code. list_all (\<lambda>(i, c). code ! i \<noteq> c) (ps @ ?new)) ?by_prems)"
    using mem prem sec_ok by simp
  have sub': "set (filter (\<lambda>code. list_all (\<lambda>(i, c). code ! i \<noteq> c) (ps @ ?new)) ?by_prems)
              \<subseteq> set (product_repeat COLORS 5)"
    using sub by auto
  show ?thesis
  proof (cases "?fb = (PEGS, 0)")
    case True
    with rc assms(1) show ?thesis
      by (auto simp: cnf_turn_def Let_def cnf_consistent_def consistent_def)
  next
    case False
    have "cnf_turn secret st = Inr (Next, st\<lparr>turn := turn st + 1, rng := g',
                       guess_history := guess_history st @ [guess],
                       printed := printed st @ announce (turn st + 1) guess ?fb,
                       premises_list := ?prems, cnf_premises := map unit_clause (ps @ ?new),
                       remaining := filter (\<lambda>code. list_all (\<lambda>(i, c). code ! i \<noteq> c) (ps @ ?new)) ?by_prems\<rparr>)"
      using rc False fc by (simp add: cnf_turn_def Let_def derive_units[OF glen] ps(1))
    moreover have "cnf_consistent secret (st\<lparr>turn := turn st + 1, rng := g',
                       guess_history := guess_history st @ [guess],
                       printed := printed st @ announce (turn st + 1) guess ?fb,
                       premises_list := ?prems, cnf_premises := map unit_clause (ps @ ?new),
                       remaining := filter (\<lambda>code. list_all (\<lambda>(i, c). code ! i \<noteq> c) (ps @ ?new)) ?by_prems\<rparr>)"
      unfolding cnf_consistent_def consistent_def
      using keep sub' prem all_ok by (auto intro: exI[of _ "ps @ ?new"])
    ultimately show ?thesis by blast
  qed
qed

lemma cnf_consistent_explore:
  assumes "cnf_consistent secret st" and "length secret = 5"
  shows "\<exists>fl st'. cnf_explore_turn secret st = Inr (fl, st') \<and> fl \<noteq> Exhausted \<and> cnf_consistent secret st'"
proof -
  from assms(1) have "remaining st \<noteq> []" by (auto simp: cnf_consistent_def consistent_def)
  with cnf_consistent_turn[OF assms] show ?thesis by (simp add: cnf_explore_turn_def)
qed

lemma cnf_consistent_inference:
  assumes "cnf_consistent secret st" and "length secret = 5"
  shows "\<exists>fl st'. cnf_inference_turn secret st = Inr (fl, st') \<and> fl \<noteq> Exhausted \<and> cnf_consistent secret st'"
proof -
  from cnf_consistent_turn[OF assms] obtain fl st' where
    t: "cnf_turn secret st = Inr (fl, st')" "fl \<noteq> Exhausted" "cnf_consistent secret st'" by blast
  from t(3) have "remaining st' \<noteq> []" by (auto simp: cnf_consistent_def consistent_def)
  with t show ?thesis by (cases fl) (simp_all add: cnf_inference_turn_def)
qed

lemma cnf_consistent_step:
  assumes "cnf_consistent secret st" and "length secret = 5" and "cnf_step secret st fl st'"
  shows "cnf_consistent secret st'"
  using assms(3) cnf_consistent_explore[OF assms(1,2)] cnf_consistent_inference[OF assms(1,2)]
  by (auto simp: cnf_step_def)

lemma cnf_consistent_reachable:
  assumes "(\<lambda>s s'. cnf_step secret s Next s')\<^sup>*\<^sup>* st0 st" and "cnf_consistent secret st0"
    and "length secret = 5"
  shows "cnf_consistent secret st"
  using assms by (induction rule: rtranclp_induct) (auto intro: cnf_consistent_step)

lemma minimax_consistent_turn:
  assumes "minimax_consistent secret all_codes st" and len: "int (length secret) = pegs"
  shows "\<exists>fl st'. minimax_turn secret pegs all_codes st = Inr (fl, st') \<and> fl \<noteq> Exhausted
            \<and> minimax_consistent secret all_codes st'"
proof -
  from assms(1) have mem: "secret \<in> set (remaining st)" and sub: "set (remaining st) \<subseteq> set all_codes"
    by (auto simp: minimax_consistent_def)
  then have ne: "remaining st \<noteq> []" and ane: "all_codes \<noteq> []" by auto
  obtain guess where g: "(if turn st + 1 = 1 then Inr (Some initial_guess)
                          else minimax_guess (remaining st) all_codes) = Inr (Some guess)"
    using minimax_guess_general[OF ne ane] by (cases "turn st + 1 = 1") auto
  let ?fb = "get_feedback secret guess"
  let ?new = "filter (\<lambda>code. get_feedback code guess = ?fb) (remaining st)"
  show ?thesis
  proof (cases "?fb = (pegs, 0)")
    case True
    with g assms(1) show ?thesis
      by (auto simp: minimax_turn_def Let_def minimax_consistent_def)
  next
    case False
    have neq: "guess \<noteq> secret"
      using False len get_feedback_self[of secret] by auto
    have k1: "secret \<in> set ?new" using mem by simp
    have k2: "secret \<in> set (remove1 guess (remaining st))"
      using mem neq by (simp add: in_set_remove1)
    have s2: "set (remove1 guess (remaining st)) \<subseteq> set all_codes"
      using sub set_remove1_subset[of guess "remaining st"] by blast
    have n1: "?new \<noteq> []" using k1 by (metis empty_iff empty_set)
    have n2: "remove1 guess (remaining st) \<noteq> []" using k2 by (metis empty_iff empty_set)
    from g False k1 k2 s2 n1 n2 ne mem sub show ?thesis
      by (auto simp: minimax_turn_def Let_def minimax_consistent_def)
  qed
qed

lemma minimax_consistent_reachable:
  assumes "(\<lambda>s s'. minimax_step secret pegs all_codes s Next s')\<^sup>*\<^sup>* st0 st"
    and "minimax_consistent secret all_codes st0" and "int (length secret) = pegs"
  shows "minimax_consistent secret all_codes st"
  using assms
proof (induction rule: rtranclp_induct)
  case base
  then show ?case by simp
next
  case (step y z)
  then have c: "minimax_consistent secret all_codes y" by simp
  from minimax_consistent_turn[OF c step.prems(2)] step.hyps(2) show ?case
    by (auto simp: minimax_step_def)
qed

section \<open>Runs against a secret of the code space\<close>

lemma initial_consistent:
  "secret \<in> set all_codes \<Longrightarrow> consistent secret (initial_state all_codes g)"
  by (simp add: consistent_def initial_state_def)

lemma cnf_initial_consistent:
  "secret \<in> set (product_repeat COLORS 5) \<Longrightarrow>
   cnf_consistent secret (cnf_initial_state (product_repeat COLORS 5) g)"
  by (auto simp: cnf_consistent_def consistent_def cnf_initial_state_def intro: exI[of _ "[]"])

lemma minimax_initial_consistent:
  "secret \<in> set all_codes \<Longrightarrow> minimax_consistent secret all_codes (minimax_initial_state all_codes)"
  by (simp add: minimax_consistent_def minimax_initial_state_def)

lemma itertools_product_Inr:
  "itertools_product pool repeat = Inr codes \<Longrightarrow> 0 \<le> repeat \<and> codes = product_repeat pool (nat repeat)"
  by (auto simp: itertools_product_def split: if_splits)

lemma first_explore_turn:
  "\<exists>s. explore_turn [''b''] 1 (initial_state [[''a''], [''b'']] (\<lambda>_. 0)) = Inr (Next, s)
     \<and> guess_history s = [[''a'']] \<and> remaining s = [[''b'']]"
  by (simp add: explore_turn_def initial_state_def random_choice_def feedback_eval)

lemma first_minimax_turn:
  "\<exists>s. minimax_turn [''c''] 1 [[''a''], [''b''], [''c'']] (minimax_initial_state [[''a''], [''b''], [''c'']])
        = Inr (Next, s)
     \<and> guess_history s = [initial_guess] \<and> remaining s = [[''a''], [''b''], [''c'']]"
  by (simp add: minimax_turn_def minimax_initial_state_def initial_guess_def feedback_eval)

text \<open>
  C10. Let the secret be a code of the space a solver enumerates, and let the feedback of
  every guess be \<open>get_feedback\<close> against it. Then in every state a run reaches by
  completed turns the secret is a member of \<open>remaining\<close>, which is therefore not empty
  where the next guess is chosen; the next turn (of either phase, where there are two)
  raises no exception, does not leave through a branch \<open>not remaining\<close>, and leaves the
  secret in \<open>remaining\<close> after its filtering. This holds for the scored-inference solver,
  the CNF solver and the minimax solver.
\<close>

theorem secret_stays_candidate:
  "(itertools_product colors_i pegs_i = Inr codes_i \<and> secret_i \<in> set codes_i
      \<and> (\<lambda>s s'. inference_step secret_i pegs_i s Next s')\<^sup>*\<^sup>* (initial_state codes_i g_i) st_i
    \<longrightarrow> secret_i \<in> set (remaining st_i) \<and> remaining st_i \<noteq> []
        \<and> (\<exists>fl st'. explore_turn secret_i pegs_i st_i = Inr (fl, st') \<and> fl \<noteq> Exhausted
               \<and> secret_i \<in> set (remaining st'))
        \<and> (\<exists>fl st'. inference_turn secret_i pegs_i st_i = Inr (fl, st') \<and> fl \<noteq> Exhausted
               \<and> secret_i \<in> set (remaining st')))
   \<and> (itertools_product COLORS PEGS = Inr codes_c \<and> secret_c \<in> set codes_c
      \<and> (\<lambda>s s'. cnf_step secret_c s Next s')\<^sup>*\<^sup>* (cnf_initial_state codes_c g_c) st_c
    \<longrightarrow> secret_c \<in> set (remaining st_c) \<and> remaining st_c \<noteq> []
        \<and> (\<exists>fl st'. cnf_explore_turn secret_c st_c = Inr (fl, st') \<and> fl \<noteq> Exhausted
               \<and> secret_c \<in> set (remaining st'))
        \<and> (\<exists>fl st'. cnf_inference_turn secret_c st_c = Inr (fl, st') \<and> fl \<noteq> Exhausted
               \<and> secret_c \<in> set (remaining st')))
   \<and> (itertools_product colors_m pegs_m = Inr codes_m \<and> secret_m \<in> set codes_m
      \<and> (\<lambda>s s'. minimax_step secret_m pegs_m codes_m s Next s')\<^sup>*\<^sup>* (minimax_initial_state codes_m) st_m
    \<longrightarrow> secret_m \<in> set (remaining st_m) \<and> remaining st_m \<noteq> []
        \<and> (\<exists>fl st'. minimax_turn secret_m pegs_m codes_m st_m = Inr (fl, st') \<and> fl \<noteq> Exhausted
               \<and> secret_m \<in> set (remaining st')))"
proof (intro conjI impI)
  assume a: "itertools_product colors_i pegs_i = Inr codes_i \<and> secret_i \<in> set codes_i
      \<and> (\<lambda>s s'. inference_step secret_i pegs_i s Next s')\<^sup>*\<^sup>* (initial_state codes_i g_i) st_i"
  then have c: "consistent secret_i st_i"
    using consistent_reachable initial_consistent by blast
  from c show "secret_i \<in> set (remaining st_i)" by (simp add: consistent_def)
  then show "remaining st_i \<noteq> []" by auto
  from consistent_explore[OF c, of pegs_i]
  show "\<exists>fl st'. explore_turn secret_i pegs_i st_i = Inr (fl, st') \<and> fl \<noteq> Exhausted
               \<and> secret_i \<in> set (remaining st')"
    by (auto simp: consistent_def)
  from consistent_inference[OF c, of pegs_i]
  show "\<exists>fl st'. inference_turn secret_i pegs_i st_i = Inr (fl, st') \<and> fl \<noteq> Exhausted
               \<and> secret_i \<in> set (remaining st')"
    by (auto simp: consistent_def)
next
  assume a: "itertools_product COLORS PEGS = Inr codes_c \<and> secret_c \<in> set codes_c
      \<and> (\<lambda>s s'. cnf_step secret_c s Next s')\<^sup>*\<^sup>* (cnf_initial_state codes_c g_c) st_c"
  then have codes: "codes_c = product_repeat COLORS 5"
    using itertools_product_Inr[of COLORS PEGS codes_c] by (simp add: PEGS_def)
  with a have len: "length secret_c = 5" by (simp add: set_product_repeat)
  from a codes have c: "cnf_consistent secret_c st_c"
    using cnf_consistent_reachable[OF _ cnf_initial_consistent len] by blast
  from c show "secret_c \<in> set (remaining st_c)" by (simp add: cnf_consistent_def consistent_def)
  then show "remaining st_c \<noteq> []" by auto
  from cnf_consistent_explore[OF c len]
  show "\<exists>fl st'. cnf_explore_turn secret_c st_c = Inr (fl, st') \<and> fl \<noteq> Exhausted
               \<and> secret_c \<in> set (remaining st')"
    by (auto simp: cnf_consistent_def consistent_def)
  from cnf_consistent_inference[OF c len]
  show "\<exists>fl st'. cnf_inference_turn secret_c st_c = Inr (fl, st') \<and> fl \<noteq> Exhausted
               \<and> secret_c \<in> set (remaining st')"
    by (auto simp: cnf_consistent_def consistent_def)
next
  assume a: "itertools_product colors_m pegs_m = Inr codes_m \<and> secret_m \<in> set codes_m
      \<and> (\<lambda>s s'. minimax_step secret_m pegs_m codes_m s Next s')\<^sup>*\<^sup>* (minimax_initial_state codes_m) st_m"
  then have len: "int (length secret_m) = pegs_m"
    using itertools_product_Inr[of colors_m pegs_m codes_m] by (auto simp: set_product_repeat)
  from a have c: "minimax_consistent secret_m codes_m st_m"
    using minimax_consistent_reachable[OF _ minimax_initial_consistent len] by blast
  from c show "secret_m \<in> set (remaining st_m)" by (simp add: minimax_consistent_def)
  then show "remaining st_m \<noteq> []" by auto
  from minimax_consistent_turn[OF c len]
  show "\<exists>fl st'. minimax_turn secret_m pegs_m codes_m st_m = Inr (fl, st') \<and> fl \<noteq> Exhausted
               \<and> secret_m \<in> set (remaining st')"
    by (auto simp: minimax_consistent_def)
qed

theorem secret_stays_candidate_witness:
  "itertools_product [''a'', ''b''] 1 = Inr [[''a''], [''b'']] \<and> [''b''] \<in> set [[''a''], [''b'']]
   \<and> (\<exists>st. (\<lambda>s s'. inference_step [''b''] 1 s Next s')\<^sup>*\<^sup>* (initial_state [[''a''], [''b'']] (\<lambda>_. 0)) st
          \<and> guess_history st = [[''a'']]
          \<and> [''b''] \<in> set (remaining st)
          \<and> (\<exists>fl st'. inference_turn [''b''] 1 st = Inr (fl, st') \<and> fl \<noteq> Exhausted
                 \<and> [''b''] \<in> set (remaining st')))
   \<and> itertools_product COLORS PEGS = Inr (product_repeat COLORS 5)
   \<and> [''blue'', ''red'', ''pink'', ''red'', ''brown''] \<in> set (product_repeat COLORS 5)
   \<and> (\<exists>fl st'. cnf_explore_turn [''blue'', ''red'', ''pink'', ''red'', ''brown'']
                     (cnf_initial_state (product_repeat COLORS 5) (\<lambda>_. 0)) = Inr (fl, st')
          \<and> fl \<noteq> Exhausted \<and> [''blue'', ''red'', ''pink'', ''red'', ''brown''] \<in> set (remaining st'))
   \<and> itertools_product [''a'', ''b'', ''c''] 1 = Inr [[''a''], [''b''], [''c'']]
   \<and> [''c''] \<in> set [[''a''], [''b''], [''c'']]
   \<and> (\<exists>st. (\<lambda>s s'. minimax_step [''c''] 1 [[''a''], [''b''], [''c'']] s Next s')\<^sup>*\<^sup>*
              (minimax_initial_state [[''a''], [''b''], [''c'']]) st
          \<and> guess_history st = [initial_guess]
          \<and> [''c''] \<in> set (remaining st)
          \<and> (\<exists>fl st'. minimax_turn [''c''] 1 [[''a''], [''b''], [''c'']] st = Inr (fl, st')
                 \<and> fl \<noteq> Exhausted \<and> [''c''] \<in> set (remaining st')))"
proof -
  let ?secret = "[''blue'', ''red'', ''pink'', ''red'', ''brown'']"
  let ?abc = "[[''a''], [''b''], [''c'']]"
  have p1: "itertools_product [''a'', ''b''] 1 = Inr [[''a''], [''b'']]"
    by (simp add: itertools_product_def)
  have m1: "[''b''] \<in> set [[''a''], [''b'']]" by simp
  obtain s1 where s1: "explore_turn [''b''] 1 (initial_state [[''a''], [''b'']] (\<lambda>_. 0)) = Inr (Next, s1)"
    "guess_history s1 = [[''a'']]"
    using first_explore_turn by blast
  have r1: "(\<lambda>s s'. inference_step [''b''] 1 s Next s')\<^sup>*\<^sup>* (initial_state [[''a''], [''b'']] (\<lambda>_. 0)) s1"
    using s1(1) by (intro r_into_rtranclp) (simp add: inference_step_def)
  have p2: "itertools_product COLORS PEGS = Inr (product_repeat COLORS 5)"
    by (simp add: itertools_product_def PEGS_def)
  have m2: "?secret \<in> set (product_repeat COLORS 5)"
    by (simp add: set_product_repeat COLORS_def)
  have r2: "(\<lambda>s s'. cnf_step ?secret s Next s')\<^sup>*\<^sup>*
              (cnf_initial_state (product_repeat COLORS 5) (\<lambda>_. 0))
              (cnf_initial_state (product_repeat COLORS 5) (\<lambda>_. 0))"
    by simp
  have p3: "itertools_product [''a'', ''b'', ''c''] 1 = Inr ?abc"
    by (simp add: itertools_product_def)
  have m3: "[''c''] \<in> set ?abc" by simp
  obtain s3 where s3: "minimax_turn [''c''] 1 ?abc (minimax_initial_state ?abc) = Inr (Next, s3)"
    "guess_history s3 = [initial_guess]"
    using first_minimax_turn by blast
  have r3: "(\<lambda>s s'. minimax_step [''c''] 1 ?abc s Next s')\<^sup>*\<^sup>* (minimax_initial_state ?abc) s3"
    using s3(1) by (intro r_into_rtranclp) (simp add: minimax_step_def)
  note inst = secret_stays_candidate[where colors_i = "[''a'', ''b'']" and pegs_i = 1
      and codes_i = "[[''a''], [''b'']]" and secret_i = "[''b'']" and g_i = "\<lambda>_. 0" and st_i = s1
      and codes_c = "product_repeat COLORS 5" and secret_c = ?secret and g_c = "\<lambda>_. 0"
      and st_c = "cnf_initial_state (product_repeat COLORS 5) (\<lambda>_. 0)"
      and colors_m = "[''a'', ''b'', ''c'']" and pegs_m = 1 and codes_m = ?abc
      and secret_m = "[''c'']" and st_m = s3]
  from inst p1 m1 r1 have c1: "[''b''] \<in> set (remaining s1)
        \<and> (\<exists>fl st'. inference_turn [''b''] 1 s1 = Inr (fl, st') \<and> fl \<noteq> Exhausted
               \<and> [''b''] \<in> set (remaining st'))"
    by blast
  from inst p2 m2 r2 have c2: "\<exists>fl st'. cnf_explore_turn ?secret
                     (cnf_initial_state (product_repeat COLORS 5) (\<lambda>_. 0)) = Inr (fl, st')
          \<and> fl \<noteq> Exhausted \<and> ?secret \<in> set (remaining st')"
    by blast
  from inst p3 m3 r3 have c3: "[''c''] \<in> set (remaining s3)
        \<and> (\<exists>fl st'. minimax_turn [''c''] 1 ?abc s3 = Inr (fl, st') \<and> fl \<noteq> Exhausted
               \<and> [''c''] \<in> set (remaining st'))"
    by blast
  from p1 m1 r1 s1(2) c1 p2 m2 c2 p3 m3 r3 s3(2) c3 show ?thesis
    by blast
qed

section \<open>Termination of the scored-inference solver\<close>

lemma full_feedback_eq:
  assumes "get_feedback secret guess = (int (length guess), 0)" and "length secret = length guess"
  shows "guess = secret"
proof -
  from assms(1) have "length (filter (\<lambda>(s, g). s = g) (zip secret guess)) = length guess"
    using fst_get_feedback[of secret guess] by simp
  from black_full_eq[OF assms(2) this] show ?thesis by simp
qed

lemma explore_turn_found_printed:
  "explore_turn secret pegs st = Inr (Found, st') \<Longrightarrow>
   \<exists>guess. printed st' = printed st @ [TurnMsg (turn st') guess, BlackMsg pegs, WhiteMsg 0, FoundMsg (turn st')]
      \<and> guess_history st' = guess_history st @ [guess]"
  by (auto simp: explore_turn_def Let_def announce_def split: sum.splits if_splits)

lemma inference_turn_found_printed:
  "inference_turn secret pegs st = Inr (Found, st') \<Longrightarrow>
   \<exists>guess. printed st' = printed st @ [TurnMsg (turn st') guess, BlackMsg pegs, WhiteMsg 0, FoundMsg (turn st')]
      \<and> guess_history st' = guess_history st @ [guess]"
  by (auto simp: inference_turn_def Let_def announce_def split: sum.splits option.splits if_splits)

text \<open>What a turn of either phase does, as far as the progress argument needs it.\<close>

lemma inference_step_shape:
  assumes "inference_step secret pegs st fl st'"
  shows "\<exists>guess\<in>set (remaining st).
           set (remaining st') \<subseteq> set (remaining st)
         \<and> (get_feedback guess guess \<noteq> get_feedback secret guess \<longrightarrow> guess \<notin> set (remaining st'))
         \<and> guess_history st' = guess_history st @ [guess]
         \<and> turn st' = turn st + 1
         \<and> (fl = Found \<longleftrightarrow> get_feedback secret guess = (pegs, 0))"
proof -
  from assms consider
    (e) "explore_turn secret pegs st = Inr (fl, st')" | (i) "inference_turn secret pegs st = Inr (fl, st')"
    by (auto simp: inference_step_def)
  then show ?thesis
  proof cases
    case e
    from explore_turn_remaining[OF e] obtain guess where g: "guess \<in> set (remaining st)"
      and r: "remaining st' = filter (\<lambda>code. get_feedback code guess = get_feedback secret guess) (remaining st)"
      and h: "guess_history st' = guess_history st @ [guess]" and t: "turn st' = turn st + 1"
      and f: "fl = Found \<and> get_feedback secret guess = (pegs, 0) \<or> fl = Next \<and> get_feedback secret guess \<noteq> (pegs, 0)"
      by blast
    have "set (remaining st') \<subseteq> set (remaining st)" using r by simp
    moreover have "get_feedback guess guess \<noteq> get_feedback secret guess \<longrightarrow> guess \<notin> set (remaining st')"
      using r by simp
    moreover have "fl = Found \<longleftrightarrow> get_feedback secret guess = (pegs, 0)" using f by blast
    ultimately show ?thesis using g h t by blast
  next
    case i
    from inference_turn_remaining[OF i] obtain guess where g: "guess \<in> set (remaining st)"
      and r: "remaining st' = filter (\<lambda>code. list_all (\<lambda>(g, f). get_feedback code g = f)
                                      (premises_list st @ [(guess, get_feedback secret guess)])) (remaining st)"
      and h: "guess_history st' = guess_history st @ [guess]" and t: "turn st' = turn st + 1"
      and f: "fl = Found \<and> get_feedback secret guess = (pegs, 0)
            \<or> fl = Exhausted \<and> get_feedback secret guess \<noteq> (pegs, 0) \<and> remaining st' = []
            \<or> fl = Next \<and> get_feedback secret guess \<noteq> (pegs, 0) \<and> remaining st' \<noteq> []"
      by blast
    have "set (remaining st') \<subseteq> set (remaining st)" using r by simp
    moreover have "get_feedback guess guess \<noteq> get_feedback secret guess \<longrightarrow> guess \<notin> set (remaining st')"
      using r by simp
    moreover have "fl = Found \<longleftrightarrow> get_feedback secret guess = (pegs, 0)" using f by blast
    ultimately show ?thesis using g h t by blast
  qed
qed

lemma inference_step_found_printed:
  assumes "inference_step secret pegs st Found st'"
  shows "\<exists>guess. printed st' = printed st @ [TurnMsg (turn st') guess, BlackMsg pegs, WhiteMsg 0, FoundMsg (turn st')]
      \<and> guess_history st' = guess_history st @ [guess]"
  using assms explore_turn_found_printed[of secret pegs st st'] inference_turn_found_printed[of secret pegs st st']
  unfolding inference_step_def by blast

lemma on_track_step:
  assumes ot: "on_track secret pegs bound st" and step: "inference_step secret pegs st fl st'"
  shows "(fl = Found \<and> solved_by secret pegs st' \<and> turn st' \<le> bound)
       \<or> (fl = Next \<and> on_track secret pegs bound st'
            \<and> card (set (remaining st')) < card (set (remaining st)))"
proof -
  from ot have cons: "consistent secret st" and len: "int (length secret) = pegs"
    and lens: "\<forall>c\<in>set (remaining st). length c = length secret"
    and bnd: "turn st + card (set (remaining st)) \<le> bound"
    by (simp_all add: on_track_def)
  from cons have mem: "secret \<in> set (remaining st)" by (simp add: consistent_def)
  have cons': "consistent secret st'"
    by (rule consistent_step_unique[OF cons step])
  have nex: "fl \<noteq> Exhausted"
    using step consistent_explore[OF cons, of pegs] consistent_inference[OF cons, of pegs]
    unfolding inference_step_def by auto
  from inference_step_shape[OF step] obtain guess where g: "guess \<in> set (remaining st)"
    and sub: "set (remaining st') \<subseteq> set (remaining st)"
    and gnot: "get_feedback guess guess \<noteq> get_feedback secret guess \<longrightarrow> guess \<notin> set (remaining st')"
    and hist: "guess_history st' = guess_history st @ [guess]"
    and tn: "turn st' = turn st + 1"
    and flc: "fl = Found \<longleftrightarrow> get_feedback secret guess = (pegs, 0)"
    by blast
  have glen: "length guess = length secret" using g lens by blast
  have self: "get_feedback guess guess = (pegs, 0)"
    using glen len by (simp add: get_feedback_self)
  have pos: "0 < card (set (remaining st))"
    using mem by (auto simp: card_gt_0_iff)
  show ?thesis
  proof (cases "get_feedback secret guess = (pegs, 0)")
    case True
    with flc have fl: "fl = Found" by simp
    have "get_feedback secret guess = (int (length guess), 0)"
      using True glen len by simp
    from full_feedback_eq[OF this] glen have gs: "guess = secret" by simp
    from inference_step_found_printed[OF step[unfolded fl]] obtain guess' where
      p: "printed st' = printed st @ [TurnMsg (turn st') guess', BlackMsg pegs, WhiteMsg 0, FoundMsg (turn st')]"
      and h': "guess_history st' = guess_history st @ [guess']" by blast
    from h' hist gs have "guess' = secret" by simp
    with p hist gs have "solved_by secret pegs st'"
      unfolding solved_by_def by blast
    moreover have "turn st' \<le> bound" using tn pos bnd by simp
    ultimately show ?thesis using fl by simp
  next
    case False
    with flc nex have fl: "fl = Next" by (cases fl) simp_all
    from False gnot self have "guess \<notin> set (remaining st')" by simp
    with g sub have "set (remaining st') \<subset> set (remaining st)" by blast
    then have less: "card (set (remaining st')) < card (set (remaining st))"
      by (simp add: psubset_card_mono)
    have l': "\<forall>c\<in>set (remaining st'). length c = length secret"
      using lens sub by blast
    have b': "turn st' + card (set (remaining st')) \<le> bound"
      using tn less bnd by simp
    have "on_track secret pegs bound st'"
      unfolding on_track_def using cons' len l' b' by simp
    with fl less show ?thesis by simp
  qed
qed

lemma on_track_turn_total:
  assumes "on_track secret pegs bound st"
  shows "(\<exists>fl st'. explore_turn secret pegs st = Inr (fl, st'))
       \<and> (\<exists>fl st'. inference_turn secret pegs st = Inr (fl, st'))"
  using assms consistent_explore[of secret st pegs] consistent_inference[of secret st pegs]
  unfolding on_track_def by blast

lemma inference_loop_solves:
  assumes "on_track secret pegs bound st"
  shows "\<exists>r. inference_loop secret pegs st = Some (Inr r) \<and> solved_by secret pegs r \<and> turn r \<le> bound"
  using assms
proof (induction "card (set (remaining st))" arbitrary: st rule: less_induct)
  case less
  from less.prems have ne: "remaining st \<noteq> []"
    by (auto simp: on_track_def consistent_def)
  from on_track_turn_total[OF less.prems] obtain fl st' where
    t: "inference_turn secret pegs st = Inr (fl, st')" by blast
  then have step: "inference_step secret pegs st fl st'" by (simp add: inference_step_def)
  from on_track_step[OF less.prems step] show ?case
  proof (elim disjE conjE)
    assume "fl = Found" "solved_by secret pegs st'" "turn st' \<le> bound"
    with t ne show ?thesis by (subst inference_loop.simps) simp
  next
    assume fl: "fl = Next" and ot: "on_track secret pegs bound st'"
      and c: "card (set (remaining st')) < card (set (remaining st))"
    from less.hyps[OF c ot] obtain r where
      "inference_loop secret pegs st' = Some (Inr r)" "solved_by secret pegs r" "turn r \<le> bound" by blast
    with t ne fl show ?thesis by (subst inference_loop.simps) simp
  qed
qed

lemma random_exploration_solves:
  assumes "on_track secret pegs bound st"
  shows "\<exists>fl st'. random_exploration secret pegs n st = Inr (fl, st')
          \<and> (fl = Found \<and> solved_by secret pegs st' \<and> turn st' \<le> bound
             \<or> fl = Next \<and> on_track secret pegs bound st')"
  using assms
proof (induction n arbitrary: st)
  case 0
  then show ?case by simp
next
  case (Suc n)
  from on_track_turn_total[OF Suc.prems] obtain fl st' where
    t: "explore_turn secret pegs st = Inr (fl, st')" by blast
  then have step: "inference_step secret pegs st fl st'" by (simp add: inference_step_def)
  from on_track_step[OF Suc.prems step] show ?case
  proof (elim disjE conjE)
    assume "fl = Found" "solved_by secret pegs st'" "turn st' \<le> bound"
    with t show ?thesis by simp
  next
    assume fl: "fl = Next" and ot: "on_track secret pegs bound st'"
    from Suc.IH[OF ot] t fl show ?thesis by simp
  qed
qed

lemma card_product_repeat: "card (set (product_repeat pool n)) = card (set pool) ^ n"
proof -
  have "{xs. length xs = n \<and> set xs \<subseteq> set pool} = {xs. set xs \<subseteq> set pool \<and> length xs = n}" by auto
  then show ?thesis
    using card_lists_length_eq[of "set pool" n] by (simp add: set_product_repeat)
qed

lemma logical_inference_run_solves:
  assumes "itertools_product colors_list pegs = Inr all_codes" and "secret \<in> set all_codes"
  shows "\<exists>r. logical_inference_run secret pegs colors_list num_initial_guesses g = Some (Inr r)
           \<and> solved_by secret pegs r \<and> turn r \<le> card (set colors_list) ^ nat pegs"
proof -
  from itertools_product_Inr[OF assms(1)] have pegs: "0 \<le> pegs"
    and codes: "all_codes = product_repeat colors_list (nat pegs)" by simp_all
  let ?bound = "card (set colors_list) ^ nat pegs"
  have len: "int (length secret) = pegs"
    using assms(2) codes pegs by (simp add: set_product_repeat)
  have rem0: "remaining (initial_state all_codes g) = all_codes" and turn0: "turn (initial_state all_codes g) = 0"
    by (simp_all add: initial_state_def)
  have lens: "\<forall>c\<in>set all_codes. length c = length secret"
    using assms(2) codes by (simp add: set_product_repeat)
  have crd: "card (set all_codes) = ?bound"
    using codes by (simp add: card_product_repeat)
  have ot: "on_track secret pegs ?bound (initial_state all_codes g)"
    unfolding on_track_def rem0 turn0
    using initial_consistent[OF assms(2), of g] len lens crd by simp
  from random_exploration_solves[OF ot, of "nat num_initial_guesses"] obtain fl st' where
    e: "random_exploration secret pegs (nat num_initial_guesses) (initial_state all_codes g) = Inr (fl, st')"
    and alt: "fl = Found \<and> solved_by secret pegs st' \<and> turn st' \<le> ?bound
             \<or> fl = Next \<and> on_track secret pegs ?bound st'" by blast
  from alt show ?thesis
  proof (elim disjE conjE)
    assume "fl = Found" "solved_by secret pegs st'" "turn st' \<le> ?bound"
    with e assms(1) show ?thesis by (simp add: logical_inference_run_def)
  next
    assume fl: "fl = Next" and ot': "on_track secret pegs ?bound st'"
    from inference_loop_solves[OF ot'] e fl assms(1) show ?thesis
      by (simp add: logical_inference_run_def)
  qed
qed

section \<open>Termination of the minimax solver when the opening is a code of the space\<close>

lemma minimax_turn_found:
  assumes "(if turn st + 1 = 1 then Inr (Some initial_guess)
            else minimax_guess (remaining st) all_codes) = Inr (Some guess)"
    and "get_feedback secret guess = (pegs, 0)"
  shows "minimax_turn secret pegs all_codes st =
           Inr (Found, st\<lparr>turn := turn st + 1, guess_history := guess_history st @ [guess],
                          printed := printed st @ [TurnMsg (turn st + 1) guess, BlackMsg pegs, WhiteMsg 0,
                                                   FoundMsg (turn st + 1)]\<rparr>)"
  using assms by (simp add: minimax_turn_def Let_def announce_def)

lemma minimax_turn_progress:
  assumes "(if turn st + 1 = 1 then Inr (Some initial_guess)
            else minimax_guess (remaining st) all_codes) = Inr (Some guess)"
    and "get_feedback secret guess \<noteq> (pegs, 0)"
    and "length (filter (\<lambda>code. get_feedback code guess = get_feedback secret guess) (remaining st))
           \<noteq> length (remaining st)"
    and "filter (\<lambda>code. get_feedback code guess = get_feedback secret guess) (remaining st) \<noteq> []"
  shows "minimax_turn secret pegs all_codes st =
           Inr (Next, st\<lparr>turn := turn st + 1, guess_history := guess_history st @ [guess],
                         printed := printed st @ announce (turn st + 1) guess (get_feedback secret guess),
                         remaining := filter (\<lambda>code. get_feedback code guess = get_feedback secret guess)
                                        (remaining st)\<rparr>)"
  using assms by (simp add: minimax_turn_def Let_def)

lemma group_le_worst:
  assumes "c \<in> set rem"
  shows "group_size rem guess (get_feedback c guess) \<le> worst_case_size rem guess"
  unfolding worst_case_size_def using assms by (intro Max_ge) auto

lemma worst_less_length:
  assumes "\<forall>c\<in>set rem. \<exists>x\<in>set rem. get_feedback x guess \<noteq> get_feedback c guess" and "rem \<noteq> []"
  shows "worst_case_size rem guess < length rem"
proof -
  have "group_size rem guess (get_feedback c guess) < length rem" if "c \<in> set rem" for c
  proof -
    from assms(1) that obtain x where "x \<in> set rem" "get_feedback x guess \<noteq> get_feedback c guess"
      by blast
    then show ?thesis
      unfolding group_size_def by (intro length_filter_less) auto
  qed
  then show ?thesis
    unfolding worst_case_size_def using assms(2) by (subst Max_less_iff) auto
qed

lemma worst_all_same:
  assumes "\<forall>x\<in>set rem. x = secret" and "rem \<noteq> []"
  shows "worst_case_size rem d = length rem"
proof -
  from assms have s: "set rem = {secret}" by (cases rem) auto
  have "filter (\<lambda>c. get_feedback c d = get_feedback secret d) rem = rem"
    using assms(1) by (simp add: filter_id_conv)
  then show ?thesis
    by (simp add: worst_case_size_def s group_size_def)
qed

lemma worst_le_length: "rem \<noteq> [] \<Longrightarrow> worst_case_size rem d \<le> length rem"
  unfolding worst_case_size_def group_size_def by (subst Max_le_iff) auto

lemma minimax_choice:
  assumes ot: "minimax_on_track secret pegs all_codes bound st"
  shows "\<exists>guess. (if turn st + 1 = 1 then Inr (Some initial_guess)
                   else minimax_guess (remaining st) all_codes) = Inr (Some guess)
           \<and> length guess = length secret
           \<and> (get_feedback secret guess \<noteq> (pegs, 0) \<longrightarrow>
                length (filter (\<lambda>code. get_feedback code guess = get_feedback secret guess) (remaining st))
                  < length (remaining st))"
proof -
  let ?rem = "remaining st"
  from ot have mem: "secret \<in> set ?rem" and sub: "set ?rem \<subseteq> set all_codes"
    and len: "int (length secret) = pegs"
    and lens: "\<forall>c\<in>set all_codes. length c = length secret"
    and first: "turn st = 0 \<longrightarrow> initial_guess \<in> set ?rem"
    by (simp_all add: minimax_on_track_def minimax_consistent_def)
  from mem have ne: "?rem \<noteq> []" by auto
  from mem sub have ane: "all_codes \<noteq> []" by auto
  have self: "get_feedback c c = (pegs, 0)" if "c \<in> set all_codes" for c
    using that lens len by (simp add: get_feedback_self)
  show ?thesis
  proof (cases "turn st = 0")
    case True
    with first have g: "initial_guess \<in> set ?rem" by simp
    with sub have ga: "initial_guess \<in> set all_codes" by blast
    have "length (filter (\<lambda>code. get_feedback code initial_guess = get_feedback secret initial_guess) ?rem)
            < length ?rem"
      if "get_feedback secret initial_guess \<noteq> (pegs, 0)"
      using g that self[OF ga] by (intro length_filter_less[of initial_guess]) auto
    with True ga lens show ?thesis by auto
  next
    case False
    from minimax_guess_general[OF ne ane] obtain guess where
      mg: "minimax_guess ?rem all_codes = Inr (Some guess)" and ga: "guess \<in> set all_codes"
      and best: "\<forall>c\<in>set all_codes. worst_case_size ?rem guess \<le> worst_case_size ?rem c"
      and pref: "(\<exists>c\<in>set ?rem \<inter> set all_codes. \<forall>d\<in>set all_codes. worst_case_size ?rem c \<le> worst_case_size ?rem d)
                 \<longrightarrow> guess \<in> set ?rem"
      by blast
    have prog: "length (filter (\<lambda>code. get_feedback code guess = get_feedback secret guess) ?rem) < length ?rem"
      if nf: "get_feedback secret guess \<noteq> (pegs, 0)"
    proof (cases "\<forall>x\<in>set ?rem. x = secret")
      case True
      have "\<forall>d\<in>set all_codes. worst_case_size ?rem secret \<le> worst_case_size ?rem d"
        using worst_all_same[OF True ne] by simp
      with mem sub pref have "guess \<in> set ?rem" by blast
      with True have "guess = secret" by simp
      with nf self[OF ga] show ?thesis by simp
    next
      case False
      then obtain x where x: "x \<in> set ?rem" "x \<noteq> secret" by blast
      have sa: "secret \<in> set all_codes" using mem sub by blast
      have diff: "get_feedback c secret \<noteq> (pegs, 0)" if "c \<in> set ?rem" "c \<noteq> secret" for c
      proof
        assume "get_feedback c secret = (pegs, 0)"
        then have "get_feedback c secret = (int (length secret), 0)" using len by simp
        moreover have "length c = length secret" using that(1) sub lens by blast
        ultimately have "secret = c" by (rule full_feedback_eq)
        with that(2) show False by simp
      qed
      have "\<forall>c\<in>set ?rem. \<exists>y\<in>set ?rem. get_feedback y secret \<noteq> get_feedback c secret"
      proof
        fix c assume c: "c \<in> set ?rem"
        show "\<exists>y\<in>set ?rem. get_feedback y secret \<noteq> get_feedback c secret"
        proof (cases "c = secret")
          case True
          with x diff[OF x] self[OF sa] show ?thesis by (intro bexI[of _ x]) auto
        next
          case False
          with c diff[OF c False] self[OF sa] mem show ?thesis by (intro bexI[of _ secret]) auto
        qed
      qed
      from worst_less_length[OF this ne] have "worst_case_size ?rem secret < length ?rem" .
      moreover have "worst_case_size ?rem guess \<le> worst_case_size ?rem secret"
        using best sa by blast
      moreover have "length (filter (\<lambda>code. get_feedback code guess = get_feedback secret guess) ?rem)
                     \<le> worst_case_size ?rem guess"
        using group_le_worst[OF mem, of guess] by (simp add: group_size_def)
      ultimately show ?thesis by linarith
    qed
    from False mg ga lens prog show ?thesis by auto
  qed
qed

lemma minimax_on_track_step:
  assumes ot: "minimax_on_track secret pegs all_codes bound st"
  shows "\<exists>fl st'. minimax_turn secret pegs all_codes st = Inr (fl, st')
          \<and> (fl = Found \<and> solved_by secret pegs st' \<and> turn st' \<le> bound
             \<or> fl = Next \<and> minimax_on_track secret pegs all_codes bound st'
                  \<and> card (set (remaining st')) < card (set (remaining st)))"
proof -
  let ?rem = "remaining st"
  from ot have mem: "secret \<in> set ?rem" and sub: "set ?rem \<subseteq> set all_codes"
    and len: "int (length secret) = pegs"
    and lens: "\<forall>c\<in>set all_codes. length c = length secret"
    and bnd: "turn st + card (set ?rem) \<le> bound"
    by (simp_all add: minimax_on_track_def minimax_consistent_def)
  from minimax_choice[OF ot] obtain guess where
    ch: "(if turn st + 1 = 1 then Inr (Some initial_guess)
          else minimax_guess ?rem all_codes) = Inr (Some guess)"
    and glen: "length guess = length secret"
    and prog: "get_feedback secret guess \<noteq> (pegs, 0) \<longrightarrow>
                length (filter (\<lambda>code. get_feedback code guess = get_feedback secret guess) ?rem)
                  < length ?rem"
    by blast
  have pos: "0 < card (set ?rem)" using mem by (auto simp: card_gt_0_iff)
  show ?thesis
  proof (cases "get_feedback secret guess = (pegs, 0)")
    case True
    then have "get_feedback secret guess = (int (length guess), 0)" using glen len by simp
    from full_feedback_eq[OF this] glen have gs: "guess = secret" by simp
    let ?st' = "st\<lparr>turn := turn st + 1, guess_history := guess_history st @ [guess],
                          printed := printed st @ [TurnMsg (turn st + 1) guess, BlackMsg pegs, WhiteMsg 0,
                                                   FoundMsg (turn st + 1)]\<rparr>"
    have "solved_by secret pegs ?st'" using gs by (simp add: solved_by_def)
    moreover have "turn ?st' \<le> bound" using pos bnd by simp
    ultimately show ?thesis using minimax_turn_found[OF ch True] by blast
  next
    case False
    let ?new = "filter (\<lambda>code. get_feedback code guess = get_feedback secret guess) ?rem"
    let ?st' = "st\<lparr>turn := turn st + 1, guess_history := guess_history st @ [guess],
                         printed := printed st @ announce (turn st + 1) guess (get_feedback secret guess),
                         remaining := ?new\<rparr>"
    from prog False have lt: "length ?new < length ?rem" by simp
    have k: "secret \<in> set ?new" using mem by simp
    then have nn: "?new \<noteq> []" by (metis empty_iff empty_set)
    from lt have "length ?new \<noteq> length ?rem" by simp
    from minimax_turn_progress[OF ch False this nn]
    have t: "minimax_turn secret pegs all_codes st = Inr (Next, ?st')" .
    have "\<exists>y\<in>set ?rem. y \<notin> set ?new"
    proof (rule ccontr)
      assume "\<not> (\<exists>y\<in>set ?rem. y \<notin> set ?new)"
      then have "?new = ?rem" by (auto simp: filter_id_conv)
      with lt show False by simp
    qed
    then have "set ?new \<subset> set ?rem" by auto
    then have less: "card (set ?new) < card (set ?rem)" by (simp add: psubset_card_mono)
    have "minimax_on_track secret pegs all_codes bound ?st'"
      unfolding minimax_on_track_def minimax_consistent_def
      using k sub len lens less bnd by auto
    with t less show ?thesis by simp
  qed
qed

lemma minimax_loop_solves:
  assumes "minimax_on_track secret pegs all_codes bound st"
  shows "\<exists>r. minimax_loop secret pegs all_codes st = Some (Inr r) \<and> solved_by secret pegs r \<and> turn r \<le> bound"
  using assms
proof (induction "card (set (remaining st))" arbitrary: st rule: less_induct)
  case less
  from less.prems have ne: "remaining st \<noteq> []"
    by (auto simp: minimax_on_track_def minimax_consistent_def)
  from minimax_on_track_step[OF less.prems] obtain fl st' where
    t: "minimax_turn secret pegs all_codes st = Inr (fl, st')"
    and alt: "fl = Found \<and> solved_by secret pegs st' \<and> turn st' \<le> bound
             \<or> fl = Next \<and> minimax_on_track secret pegs all_codes bound st'
                  \<and> card (set (remaining st')) < card (set (remaining st))" by blast
  from alt show ?case
  proof (elim disjE conjE)
    assume "fl = Found" "solved_by secret pegs st'" "turn st' \<le> bound"
    with t ne show ?thesis by (subst minimax_loop.simps) simp
  next
    assume fl: "fl = Next" and ot: "minimax_on_track secret pegs all_codes bound st'"
      and c: "card (set (remaining st')) < card (set (remaining st))"
    from less.hyps[OF c ot] obtain r where
      "minimax_loop secret pegs all_codes st' = Some (Inr r)" "solved_by secret pegs r" "turn r \<le> bound"
      by blast
    with t ne fl show ?thesis by (subst minimax_loop.simps) simp
  qed
qed

lemma mastermind_minimax_run_solves:
  assumes "itertools_product colors_list pegs = Inr all_codes" and "secret \<in> set all_codes"
    and "initial_guess \<in> set all_codes"
  shows "\<exists>r. mastermind_minimax_run secret pegs colors_list = Some (Inr r)
           \<and> solved_by secret pegs r \<and> turn r \<le> card (set colors_list) ^ nat pegs"
proof -
  from itertools_product_Inr[OF assms(1)] have pegs: "0 \<le> pegs"
    and codes: "all_codes = product_repeat colors_list (nat pegs)" by simp_all
  let ?bound = "card (set colors_list) ^ nat pegs"
  have len: "int (length secret) = pegs"
    using assms(2) codes pegs by (simp add: set_product_repeat)
  have rem0: "remaining (minimax_initial_state all_codes) = all_codes"
    and turn0: "turn (minimax_initial_state all_codes) = 0"
    by (simp_all add: minimax_initial_state_def)
  have lens: "\<forall>c\<in>set all_codes. length c = length secret"
    using assms(2) codes by (simp add: set_product_repeat)
  have crd: "card (set all_codes) = ?bound"
    using codes by (simp add: card_product_repeat)
  have ot: "minimax_on_track secret pegs all_codes ?bound (minimax_initial_state all_codes)"
    unfolding minimax_on_track_def rem0 turn0
    using minimax_initial_consistent[OF assms(2)] len lens crd assms(3) by simp
  have "opening_guess all_codes = Inr initial_guess"
    using assms(3) by (simp add: opening_guess_def)
  with minimax_loop_solves[OF ot] assms(1) show ?thesis
    by (simp add: mastermind_minimax_run_def)
qed

section \<open>Termination of the CNF solver\<close>

lemma cnf_turn_shape:
  assumes "cnf_turn secret st = Inr (fl, st')"
  shows "\<exists>guess\<in>set (remaining st).
           turn st' = turn st + 1
         \<and> guess_history st' = guess_history st @ [guess]
         \<and> (fl = Found \<and> get_feedback secret guess = (PEGS, 0)
              \<and> printed st' = printed st @ [TurnMsg (turn st') guess, BlackMsg PEGS, WhiteMsg 0, FoundMsg (turn st')]
            \<or> fl = Next \<and> get_feedback secret guess \<noteq> (PEGS, 0)
              \<and> (\<forall>c\<in>set (remaining st'). c \<in> set (remaining st) \<and> get_feedback c guess = get_feedback secret guess))"
proof -
  from assms obtain guess g' where rc: "random_choice (rng st) (remaining st) = Inr (guess, g')"
    by (auto simp: cnf_turn_def split: sum.splits)
  from random_choice_mem[OF rc] have g: "guess \<in> set (remaining st)" .
  show ?thesis
  proof (cases "get_feedback secret guess = (PEGS, 0)")
    case True
    with assms rc have "fl = Found" "turn st' = turn st + 1" "guess_history st' = guess_history st @ [guess]"
      "printed st' = printed st @ [TurnMsg (turn st') guess, BlackMsg PEGS, WhiteMsg 0, FoundMsg (turn st')]"
      by (auto simp: cnf_turn_def Let_def announce_def)
    with True g show ?thesis by blast
  next
    case False
    let ?fb = "get_feedback secret guess"
    let ?by_prems = "filter (\<lambda>code. list_all (\<lambda>(g, f). get_feedback code g = f)
                        (premises_list st @ [(guess, ?fb)])) (remaining st)"
    from assms rc False obtain clauses by_cnf where
      fc: "filter_cnf (cnf_premises st @ clauses) ?by_prems = Inr by_cnf"
      and st': "fl = Next" "turn st' = turn st + 1" "guess_history st' = guess_history st @ [guess]"
        "remaining st' = by_cnf"
      by (auto simp: cnf_turn_def Let_def split: sum.splits)
    from filter_cnf_sub[OF fc] have "set by_cnf \<subseteq> set ?by_prems" by simp
    then have "\<forall>c\<in>set (remaining st'). c \<in> set (remaining st) \<and> get_feedback c guess = ?fb"
      using st'(4) by auto
    with st' False g show ?thesis by blast
  qed
qed

lemma cnf_on_track_turn:
  assumes ot: "on_track secret PEGS bound st" and cc: "cnf_consistent secret st"
  shows "\<exists>fl st'. cnf_turn secret st = Inr (fl, st')
          \<and> (fl = Found \<and> solved_by secret PEGS st' \<and> turn st' \<le> bound
             \<or> fl = Next \<and> on_track secret PEGS bound st' \<and> cnf_consistent secret st'
                  \<and> card (set (remaining st')) < card (set (remaining st)))"
proof -
  from ot have len: "int (length secret) = PEGS"
    and lens: "\<forall>c\<in>set (remaining st). length c = length secret"
    and bnd: "turn st + card (set (remaining st)) \<le> bound"
    and cons: "consistent secret st"
    by (simp_all add: on_track_def)
  from cons have mem: "secret \<in> set (remaining st)" by (simp add: consistent_def)
  from len have len5: "length secret = 5" by (simp add: PEGS_def)
  from cnf_consistent_turn[OF cc len5] obtain fl st' where
    t: "cnf_turn secret st = Inr (fl, st')" and cc': "cnf_consistent secret st'" by blast
  from cnf_turn_shape[OF t] obtain guess where g: "guess \<in> set (remaining st)"
    and tn: "turn st' = turn st + 1"
    and hist: "guess_history st' = guess_history st @ [guess]"
    and alt: "fl = Found \<and> get_feedback secret guess = (PEGS, 0)
              \<and> printed st' = printed st @ [TurnMsg (turn st') guess, BlackMsg PEGS, WhiteMsg 0, FoundMsg (turn st')]
            \<or> fl = Next \<and> get_feedback secret guess \<noteq> (PEGS, 0)
              \<and> (\<forall>c\<in>set (remaining st'). c \<in> set (remaining st) \<and> get_feedback c guess = get_feedback secret guess)"
    by blast
  have glen: "length guess = length secret" using g lens by blast
  have self: "get_feedback guess guess = (PEGS, 0)"
    using glen len by (simp add: get_feedback_self)
  have pos: "0 < card (set (remaining st))" using mem by (auto simp: card_gt_0_iff)
  from alt show ?thesis
  proof (elim disjE conjE)
    assume fl: "fl = Found" and fb: "get_feedback secret guess = (PEGS, 0)"
      and p: "printed st' = printed st @ [TurnMsg (turn st') guess, BlackMsg PEGS, WhiteMsg 0, FoundMsg (turn st')]"
    have "get_feedback secret guess = (int (length guess), 0)" using fb glen len by simp
    from full_feedback_eq[OF this] glen have "guess = secret" by simp
    with p hist have "printed st' = printed st @ [TurnMsg (turn st') secret, BlackMsg PEGS, WhiteMsg 0, FoundMsg (turn st')]
        \<and> guess_history st' = guess_history st @ [secret]" by simp
    then have "solved_by secret PEGS st'" unfolding solved_by_def by (intro exI)
    moreover have "turn st' \<le> bound" using tn pos bnd by simp
    ultimately have "fl = Found \<and> solved_by secret PEGS st' \<and> turn st' \<le> bound" using fl by simp
    with t show ?thesis by (intro exI[of _ fl] exI[of _ st']) simp
  next
    assume fl: "fl = Next" and fb: "get_feedback secret guess \<noteq> (PEGS, 0)"
      and sub: "(\<forall>c\<in>set (remaining st'). c \<in> set (remaining st) \<and> get_feedback c guess = get_feedback secret guess)"
    have "guess \<notin> set (remaining st')"
    proof
      assume "guess \<in> set (remaining st')"
      with sub have "get_feedback guess guess = get_feedback secret guess" by simp
      with fb self show False by simp
    qed
    moreover from sub have s: "set (remaining st') \<subseteq> set (remaining st)" by blast
    ultimately have "set (remaining st') \<subset> set (remaining st)" using g by blast
    then have less: "card (set (remaining st')) < card (set (remaining st))"
      by (simp add: psubset_card_mono)
    have "consistent secret st'" using cc' by (simp add: cnf_consistent_def)
    moreover have "\<forall>c\<in>set (remaining st'). length c = length secret" using lens s by blast
    moreover have "turn st' + card (set (remaining st')) \<le> bound" using tn less bnd by simp
    ultimately have "on_track secret PEGS bound st'" unfolding on_track_def using len by simp
    with fl cc' less have "fl = Next \<and> on_track secret PEGS bound st' \<and> cnf_consistent secret st'
                  \<and> card (set (remaining st')) < card (set (remaining st))" by simp
    with t show ?thesis by (intro exI[of _ fl] exI[of _ st']) simp
  qed
qed

lemma cnf_inference_loop_solves:
  assumes "on_track secret PEGS bound st" and "cnf_consistent secret st"
  shows "\<exists>r. cnf_inference_loop secret st = Some (Inr r) \<and> solved_by secret PEGS r \<and> turn r \<le> bound"
  using assms
proof (induction "card (set (remaining st))" arbitrary: st rule: less_induct)
  case less
  from less.prems have ne: "remaining st \<noteq> []" by (auto simp: on_track_def consistent_def)
  from cnf_on_track_turn[OF less.prems] obtain fl st' where
    t: "cnf_turn secret st = Inr (fl, st')"
    and alt: "fl = Found \<and> solved_by secret PEGS st' \<and> turn st' \<le> bound
             \<or> fl = Next \<and> on_track secret PEGS bound st' \<and> cnf_consistent secret st'
                  \<and> card (set (remaining st')) < card (set (remaining st))" by blast
  from alt show ?case
  proof (elim disjE conjE)
    assume "fl = Found" "solved_by secret PEGS st'" "turn st' \<le> bound"
    with t ne show ?thesis
      by (subst cnf_inference_loop.simps) (simp add: cnf_inference_turn_def)
  next
    assume fl: "fl = Next" and ot: "on_track secret PEGS bound st'" and cc: "cnf_consistent secret st'"
      and c: "card (set (remaining st')) < card (set (remaining st))"
    from ot have ne': "remaining st' \<noteq> []" by (auto simp: on_track_def consistent_def)
    from less.hyps[OF c ot cc] obtain r where
      "cnf_inference_loop secret st' = Some (Inr r)" "solved_by secret PEGS r" "turn r \<le> bound" by blast
    with t ne ne' fl show ?thesis
      by (subst cnf_inference_loop.simps) (simp add: cnf_inference_turn_def)
  qed
qed

lemma cnf_exploration_solves:
  assumes "on_track secret PEGS bound st" and "cnf_consistent secret st"
  shows "\<exists>fl st'. cnf_exploration secret n st = Inr (fl, st')
          \<and> (fl = Found \<and> solved_by secret PEGS st' \<and> turn st' \<le> bound
             \<or> fl = Next \<and> on_track secret PEGS bound st' \<and> cnf_consistent secret st')"
  using assms
proof (induction n arbitrary: st)
  case 0
  then show ?case by simp
next
  case (Suc n)
  from Suc.prems have ne: "remaining st \<noteq> []" by (auto simp: on_track_def consistent_def)
  from cnf_on_track_turn[OF Suc.prems] obtain fl st' where
    t: "cnf_turn secret st = Inr (fl, st')"
    and alt: "fl = Found \<and> solved_by secret PEGS st' \<and> turn st' \<le> bound
             \<or> fl = Next \<and> on_track secret PEGS bound st' \<and> cnf_consistent secret st'
                  \<and> card (set (remaining st')) < card (set (remaining st))" by blast
  from alt show ?case
  proof (elim disjE conjE)
    assume "fl = Found" "solved_by secret PEGS st'" "turn st' \<le> bound"
    with t ne show ?thesis by (simp add: cnf_explore_turn_def)
  next
    assume fl: "fl = Next" and ot: "on_track secret PEGS bound st'" and cc: "cnf_consistent secret st'"
    from Suc.IH[OF ot cc] t ne fl show ?thesis by (simp add: cnf_explore_turn_def)
  qed
qed

lemma logical_inference_run_CNF_solves:
  assumes "secret \<in> set (product_repeat COLORS 5)"
  shows "\<exists>r. logical_inference_run_CNF secret num_initial_guesses g = Some (Inr r)
           \<and> solved_by secret PEGS r \<and> turn r \<le> card (set COLORS) ^ 5"
proof -
  let ?codes = "product_repeat COLORS 5"
  let ?bound = "card (set COLORS) ^ 5"
  have p: "itertools_product COLORS PEGS = Inr ?codes"
    by (simp add: itertools_product_def PEGS_def)
  have len: "int (length secret) = PEGS"
    using assms by (simp add: set_product_repeat PEGS_def)
  have rem0: "remaining (cnf_initial_state ?codes g) = ?codes" and turn0: "turn (cnf_initial_state ?codes g) = 0"
    by (simp_all add: cnf_initial_state_def)
  have lens: "\<forall>c\<in>set ?codes. length c = length secret"
    using assms by (simp add: set_product_repeat)
  have cc: "cnf_consistent secret (cnf_initial_state ?codes g)"
    by (rule cnf_initial_consistent[OF assms])
  then have "consistent secret (cnf_initial_state ?codes g)" by (simp add: cnf_consistent_def)
  then have ot: "on_track secret PEGS ?bound (cnf_initial_state ?codes g)"
    unfolding on_track_def rem0 turn0 using len lens by (simp add: card_product_repeat)
  from cnf_exploration_solves[OF ot cc, of "nat num_initial_guesses"] obtain fl st' where
    e: "cnf_exploration secret (nat num_initial_guesses) (cnf_initial_state ?codes g) = Inr (fl, st')"
    and alt: "fl = Found \<and> solved_by secret PEGS st' \<and> turn st' \<le> ?bound
             \<or> fl = Next \<and> on_track secret PEGS ?bound st' \<and> cnf_consistent secret st'" by blast
  from alt show ?thesis
  proof (elim disjE conjE)
    assume "fl = Found" "solved_by secret PEGS st'" "turn st' \<le> ?bound"
    with e p show ?thesis by (simp add: logical_inference_run_CNF_def)
  next
    assume fl: "fl = Next" and ot': "on_track secret PEGS ?bound st'" and cc': "cnf_consistent secret st'"
    from cnf_inference_loop_solves[OF ot' cc'] e fl p show ?thesis
      by (simp add: logical_inference_run_CNF_def)
  qed
qed

section \<open>The minimax solver with the default pegs and colours\<close>

lemma default_minimax_run_solves:
  assumes "secret \<in> set (product_repeat COLORS 5)"
  shows "\<exists>r. mastermind_minimax_run secret PEGS COLORS = Some (Inr r)
           \<and> solved_by secret PEGS r \<and> turn r \<le> card (set COLORS) ^ 5"
proof -
  have p: "itertools_product COLORS PEGS = Inr (product_repeat COLORS 5)"
    by (simp add: itertools_product_def PEGS_def)
  have i: "initial_guess \<in> set (product_repeat COLORS 5)"
    by (simp add: set_product_repeat initial_guess_def COLORS_def)
  from mastermind_minimax_run_solves[OF p assms i] show ?thesis by (simp add: PEGS_def)
qed


end
